theory Spec2Isabelle
  imports Main "HOL-Library.Char_ord" "HOL-Library.List_Lexorder" "HOL-Library.Option_ord"
    "HOL-Library.Multiset" "HOL-Library.AList"
begin

text \<open>
  Monzter crawls the links of a site from an entry page, to a maximum depth and at a
  limited rate, and prints the tree of the links it found. The repository holds two
  versions of the crawler. The later one, which the README and \<^verbatim>\<open>crawler_test.go\<close>
  describe, crawls depth-first in a single goroutine and builds a \<^verbatim>\<open>URLTree\<close> over a
  \<^verbatim>\<open>SchemelessURLSet\<close>; it is embedded here in full: \<^verbatim>\<open>NewCrawler\<close>, \<^verbatim>\<open>Run\<close>,
  \<^verbatim>\<open>crawl\<close>, \<^verbatim>\<open>fetch\<close>, \<^verbatim>\<open>parseToAbsURL\<close>, \<^verbatim>\<open>uniqueLinksInPage\<close>, \<^verbatim>\<open>EnsureContains\<close>,
  \<^verbatim>\<open>withoutScheme\<close> and \<^verbatim>\<open>URLTree.string\<close>. The earlier one (\<^verbatim>\<open>crawler.go\<close>,
  \<^verbatim>\<open>link_tree.go\<close>, \<^verbatim>\<open>url_set.go\<close>) starts a goroutine for every link and merges their
  results through \<^verbatim>\<open>funnel\<close>. Of it, what one call does in its own goroutine is
  embedded: \<^verbatim>\<open>LinkSet.EnsureContains\<close>, \<^verbatim>\<open>Crawler.parseToAbsURL\<close>, \<^verbatim>\<open>fetchPage\<close>,
  \<^verbatim>\<open>findLinksInPage\<close>, \<^verbatim>\<open>Crawler.crawl\<close>, \<^verbatim>\<open>Crawler.Run\<close>, \<^verbatim>\<open>collectResults\<close> and
  \<^verbatim>\<open>LinkTree.string\<close>; the results that the goroutines of a call send back through
  \<^verbatim>\<open>funnel\<close> are a parameter of that call. Where the two versions use one name, the
  function of the earlier version is called after the type it works with
  (\<open>LinkSet_EnsureContains\<close>, \<open>Crawler_parseToAbsURL\<close>, \<open>LinkTree_crawl\<close>,
  \<open>LinkTree_Run\<close>) or after \<^verbatim>\<open>findLinksInPage\<close>, whose closure and walk they are
  (\<open>findLinks_visitLink\<close>, \<open>findLinks_walkLinks\<close>).
\<close>

section \<open>The libraries the crawler calls\<close>

subsection \<open>net/url\<close>

text \<open>
  The crawler reads and writes two fields of a \<^verbatim>\<open>*url.URL\<close> itself (\<^verbatim>\<open>Scheme\<close> and
  \<^verbatim>\<open>Path\<close>); everything else it does with a URL goes through the standard library.
  A URL is the record of the fields of the struct \<^verbatim>\<open>url.URL\<close> (its \<^verbatim>\<open>*Userinfo\<close> is a
  name and a password that may be unset, or nil), and the library functions the source
  calls (\<^verbatim>\<open>url.Parse\<close>, \<^verbatim>\<open>URL.String\<close>, \<^verbatim>\<open>URL.ResolveReference\<close>,
  \<^verbatim>\<open>URL.Hostname\<close>) are the fields of a record \<open>urllib\<close> that every function of the
  model takes as its first argument: a theorem proved for every \<open>urllib\<close> holds for
  whatever net/url computes. \<^verbatim>\<open>url.Parse\<close> returns \<open>None\<close> where the library returns
  an error (the crawler never looks at the error value of a failed parse).
\<close>

record URL =
  Scheme :: string
  Opaque :: string
  User :: "(string \<times> string option) option"
  Host :: string
  Path :: string
  RawPath :: string
  OmitHost :: bool
  ForceQuery :: bool
  RawQuery :: string
  Fragment :: string
  RawFragment :: string

text \<open>The zero value of the struct.\<close>

definition zero_URL :: URL where
  "zero_URL =
     \<lparr>Scheme = [], Opaque = [], User = None, Host = [], Path = [], RawPath = [],
      OmitHost = False, ForceQuery = False, RawQuery = [], Fragment = [], RawFragment = []\<rparr>"

record urllib =
  url_Parse :: "string \<Rightarrow> URL option"
  url_String :: "URL \<Rightarrow> string"
  url_ResolveReference :: "URL \<Rightarrow> URL \<Rightarrow> URL"
  url_Hostname :: "URL \<Rightarrow> string"

subsection \<open>Errors and panics\<close>

text \<open>
  A Go \<^verbatim>\<open>error\<close> value is either produced by a library (\<open>Err\<close>) or wrapped with a
  message by \<^verbatim>\<open>errors.Wrapf\<close>. A function of the source ends in one of three ways: it
  returns a value, it returns an error, or it panics (the only panic the source can
  raise itself is the nil dereference in \<^verbatim>\<open>withoutScheme\<close>). Results are
  \<open>failure + 'a\<close>.
\<close>

datatype goerror = Err string | Wrapf goerror string

datatype failure = Error goerror | Panic

subsection \<open>golang.org/x/net/html\<close>

datatype NodeType =
  ErrorNode | TextNode | DocumentNode | ElementNode | CommentNode | DoctypeNode

record Attribute =
  Namespace :: string
  Key :: string
  Val :: string

text \<open>A node: its \<^verbatim>\<open>Type\<close>, \<^verbatim>\<open>Data\<close>, \<^verbatim>\<open>Attr\<close> and its children in sibling order.\<close>

datatype Node = Node NodeType string "Attribute list" "Node list"

section \<open>The set of visited URLs\<close>

text \<open>
  \<^verbatim>\<open>withoutScheme\<close> parses the URL's own string form again, discards the error, clears
  the scheme of the clone and prints it. Where the second parse fails the clone is nil
  and the assignment to its field panics: that is \<open>None\<close>.
\<close>

definition withoutScheme :: "urllib \<Rightarrow> URL \<Rightarrow> string option" where
  "withoutScheme L u =
     (case url_Parse L (url_String L u) of
        None \<Rightarrow> None
      | Some clone \<Rightarrow> Some (url_String L (clone\<lparr>Scheme := []\<rparr>)))"

text \<open>
  \<^verbatim>\<open>SchemelessURLSet\<close> is a \<^verbatim>\<open>map[string]struct{}\<close>: a set of keys.
  \<^verbatim>\<open>EnsureContains\<close> returns whether the key existed, and the set after the call.
\<close>

type_synonym SchemelessURLSet = "string set"

definition EnsureContains ::
  "urllib \<Rightarrow> SchemelessURLSet \<Rightarrow> URL \<Rightarrow> (bool \<times> SchemelessURLSet) option" where
  "EnsureContains L s u =
     (case withoutScheme L u of
        None \<Rightarrow> None
      | Some key \<Rightarrow> if key \<in> s then Some (True, s) else Some (False, insert key s))"

text \<open>
  The first version of the set (\<^verbatim>\<open>url_set.go\<close>): \<^verbatim>\<open>LinkSet\<close> holds a \<^verbatim>\<open>sync.Map\<close> of
  keys, and \<^verbatim>\<open>EnsureContains\<close> is one call of \<^verbatim>\<open>LoadOrStore\<close>, which stores the key
  if it is absent and reports whether it was loaded. \<open>LinkSet_calls\<close> is what a list of
  calls returns when they happen one after the other.
\<close>

definition LinkSet_EnsureContains :: "string set \<Rightarrow> string \<Rightarrow> bool \<times> string set" where
  "LinkSet_EnsureContains m url = (url \<in> m, insert url m)"

fun LinkSet_calls :: "string set \<Rightarrow> string list \<Rightarrow> bool list" where
  "LinkSet_calls m [] = []"
| "LinkSet_calls m (url # urls) =
     (case LinkSet_EnsureContains m url of (existed, m') \<Rightarrow> existed # LinkSet_calls m' urls)"

section \<open>Link extraction\<close>

text \<open>
  \<^verbatim>\<open>parseToAbsURL\<close>: parse the href, give an empty path the value \<^verbatim>\<open>/\<close>, resolve
  against the base. \<open>None\<close> is the error return.
\<close>

definition parseToAbsURL :: "urllib \<Rightarrow> string \<Rightarrow> URL \<Rightarrow> URL option" where
  "parseToAbsURL L href base =
     (case url_Parse L href of
        None \<Rightarrow> None
      | Some parsed \<Rightarrow>
          Some (url_ResolveReference L base
                  (if Path parsed = [] then parsed\<lparr>Path := ''/''\<rparr> else parsed)))"

text \<open>
  The closure passed to \<^verbatim>\<open>walkLinks\<close> in \<^verbatim>\<open>uniqueLinksInPage\<close>. It loops over the
  attributes of an anchor and returns at the first one whose key is \<^verbatim>\<open>href\<close>. Its
  state is the pair of the local variables it captures: \<^verbatim>\<open>links\<close> and \<^verbatim>\<open>seenOnPage\<close>.
\<close>

type_synonym extraction = "URL list \<times> SchemelessURLSet"

fun visitLink :: "urllib \<Rightarrow> URL \<Rightarrow> Attribute list \<Rightarrow> extraction \<Rightarrow> extraction option" where
  "visitLink L pageURL [] st = Some st"
| "visitLink L pageURL (attr # attrs) (links, seenOnPage) =
     (if Key attr = ''href'' then
        (case parseToAbsURL L (Val attr) pageURL of
           None \<Rightarrow> Some (links, seenOnPage)
         | Some href \<Rightarrow>
             (case EnsureContains L seenOnPage href of
                None \<Rightarrow> None
              | Some (existed, seenOnPage') \<Rightarrow>
                  if \<not> existed then Some (links @ [href], seenOnPage')
                  else Some (links, seenOnPage')))
      else visitLink L pageURL attrs (links, seenOnPage))"

text \<open>
  \<^verbatim>\<open>walkLinks\<close>: an anchor element is visited and not descended into; any other node
  has its children walked from first to last. \<open>None\<close> is a panic of the visitor.
\<close>

fun walkLinks :: "urllib \<Rightarrow> URL \<Rightarrow> Node \<Rightarrow> extraction \<Rightarrow> extraction option"
  and walkSiblings :: "urllib \<Rightarrow> URL \<Rightarrow> Node list \<Rightarrow> extraction \<Rightarrow> extraction option" where
  "walkLinks L pageURL (Node t d attrs children) st =
     (if t = ElementNode \<and> d = ''a'' then visitLink L pageURL attrs st
      else walkSiblings L pageURL children st)"
| "walkSiblings L pageURL [] st = Some st"
| "walkSiblings L pageURL (c # cs) st =
     (case walkLinks L pageURL c st of
        None \<Rightarrow> None
      | Some st' \<Rightarrow> walkSiblings L pageURL cs st')"

subsection \<open>The world outside: rate limiter, HTTP client, HTML parser\<close>

text \<open>
  What the limiter, the network and the parser answer is not decided by the crawler:
  it is a parameter. \<open>limiter_Wait W n\<close> is the result of the \<open>n\<close>-th call of
  \<^verbatim>\<open>c.limiter.Wait\<close> (\<open>None\<close> is a nil error), \<open>http_NewRequest\<close> the error of
  \<^verbatim>\<open>http.NewRequest\<close> for a URL string, \<open>client_Do W n url\<close> the body (or the error)
  of the request made after the \<open>n\<close>-th wait, and \<open>html_Parse\<close> the document (or the
  error) \<^verbatim>\<open>html.Parse\<close> gives for a body.
\<close>

record World =
  limiter_Wait :: "nat \<Rightarrow> goerror option"
  http_NewRequest :: "string \<Rightarrow> goerror option"
  client_Do :: "nat \<Rightarrow> string \<Rightarrow> goerror + string"
  html_Parse :: "string \<Rightarrow> goerror + Node"

text \<open>\<^verbatim>\<open>uniqueLinksInPage\<close>: parse the page, walk it, return \<^verbatim>\<open>links\<close>.\<close>

definition uniqueLinksInPage :: "urllib \<Rightarrow> World \<Rightarrow> string \<Rightarrow> URL \<Rightarrow> failure + URL list" where
  "uniqueLinksInPage L W page pageURL =
     (case html_Parse W page of
        Inl err \<Rightarrow> Inl (Error (Wrapf err ''error parsing page''))
      | Inr doc \<Rightarrow>
          (case walkLinks L pageURL doc ([], {}) of
             None \<Rightarrow> Inl Panic
           | Some (links, seenOnPage) \<Rightarrow> Inr links))"

section \<open>The tree of links\<close>

text \<open>
  \<^verbatim>\<open>URLTree\<close> is \<^verbatim>\<open>map[*url.URL]URLTree\<close>. A value of a map type is nil or a map, and
  the two are told apart here: \<open>NilTree\<close> is the nil map. The keys are pointers, so two
  entries never collide, whatever the URLs they point to. A map is the list of its
  entries. The crawler builds the list in the order in which it inserts; Go keeps no
  order, and its \<^verbatim>\<open>range\<close> visits the entries in an order of its own, which may
  differ from one loop to the next: \<open>same_map\<close> below relates the lists that are
  the same map.
\<close>

datatype URLTree = NilTree | Tree "(URL \<times> URLTree) list"

fun len :: "URLTree \<Rightarrow> nat" where
  "len NilTree = 0"
| "len (Tree entries) = length entries"

section \<open>The crawler\<close>

text \<open>
  The fields of \<^verbatim>\<open>Crawler\<close> that never change after \<^verbatim>\<open>NewCrawler\<close> are the record
  \<open>Crawler\<close>; \<^verbatim>\<open>maxDepth\<close> is a Go \<^verbatim>\<open>int\<close>, and the crawler only adds 1 to a depth
  that is 0 or below \<^verbatim>\<open>maxDepth\<close>, so no addition overflows. What a run changes is the record
  \<open>state\<close>: the field \<^verbatim>\<open>visited\<close>, the number of calls of the limiter so far, and a
  trace that the source does not keep, the list of the pages \<^verbatim>\<open>c.fetch\<close> was called
  for, each with the depth of the call of \<^verbatim>\<open>crawl\<close> that fetched it.
\<close>

record Crawler =
  root :: URL
  maxDepth :: int

record state =
  visited :: SchemelessURLSet
  clock :: nat
  fetched :: "(URL \<times> int) list"

text \<open>\<^verbatim>\<open>Crawler.fetch\<close>: build the request, send it, return the body.\<close>

definition fetch :: "urllib \<Rightarrow> World \<Rightarrow> nat \<Rightarrow> URL \<Rightarrow> goerror + string" where
  "fetch L W n pageURL =
     (case http_NewRequest W (url_String L pageURL) of
        Some err \<Rightarrow> Inl err
      | None \<Rightarrow> client_Do W n (url_String L pageURL))"

text \<open>
  \<^verbatim>\<open>Crawler.crawl\<close>. The loop over \<^verbatim>\<open>hrefs\<close> is \<open>crawl_links\<close>, whose arguments are
  the variables the loop reads: \<^verbatim>\<open>depth\<close>, the links left, the entries of \<^verbatim>\<open>tree\<close>.
  Every \<^verbatim>\<open>href\<close> is a pointer of its own, so \<^verbatim>\<open>tree[href] = nil\<close> adds an entry at the
  end and \<^verbatim>\<open>tree[href] = subTree\<close> overwrites that last entry.
\<close>

function crawl :: "urllib \<Rightarrow> World \<Rightarrow> Crawler \<Rightarrow> URL \<Rightarrow> int \<Rightarrow> state \<Rightarrow> (failure + URLTree) \<times> state"
  and crawl_links :: "urllib \<Rightarrow> World \<Rightarrow> Crawler \<Rightarrow> int \<Rightarrow> URL list \<Rightarrow> (URL \<times> URLTree) list \<Rightarrow> state
    \<Rightarrow> (failure + URLTree) \<times> state" where
  "crawl L W c pageURL depth s =
     (case limiter_Wait W (clock s) of
        Some err \<Rightarrow>
          (Inl (Error (Wrapf err (''error while waiting to be allowed to crawl '' @ url_String L pageURL))),
           s\<lparr>clock := Suc (clock s)\<rparr>)
      | None \<Rightarrow>
          (case fetch L W (clock s) pageURL of
             Inl err \<Rightarrow>
               (Inl (Error (Wrapf err (''error fetching '' @ url_String L pageURL))),
                s\<lparr>clock := Suc (clock s), fetched := fetched s @ [(pageURL, depth)]\<rparr>)
           | Inr page \<Rightarrow>
               (case uniqueLinksInPage L W page pageURL of
                  Inl Panic \<Rightarrow>
                    (Inl Panic, s\<lparr>clock := Suc (clock s), fetched := fetched s @ [(pageURL, depth)]\<rparr>)
                | Inl (Error err) \<Rightarrow>
                    (Inl (Error (Wrapf err (''error finding links on '' @ url_String L pageURL))),
                     s\<lparr>clock := Suc (clock s), fetched := fetched s @ [(pageURL, depth)]\<rparr>)
                | Inr hrefs \<Rightarrow>
                    crawl_links L W c depth hrefs []
                      (s\<lparr>clock := Suc (clock s), fetched := fetched s @ [(pageURL, depth)]\<rparr>))))"
| "crawl_links L W c depth [] tree s = (Inr (Tree tree), s)"
| "crawl_links L W c depth (href # hrefs) tree s =
     (case EnsureContains L (visited s) href of
        None \<Rightarrow> (Inl Panic, s)
      | Some (existed, v) \<Rightarrow>
          if existed then crawl_links L W c depth hrefs (tree @ [(href, NilTree)]) (s\<lparr>visited := v\<rparr>)
          else if depth + 1 \<ge> maxDepth c \<or> url_Hostname L href \<noteq> url_Hostname L (root c)
          then crawl_links L W c depth hrefs (tree @ [(href, NilTree)]) (s\<lparr>visited := v\<rparr>)
          else
            (case crawl L W c href (depth + 1) (s\<lparr>visited := v\<rparr>) of
               (Inl f, s') \<Rightarrow> (Inl f, s')
             | (Inr subTree, s') \<Rightarrow> crawl_links L W c depth hrefs (tree @ [(href, subTree)]) s'))"
  by pat_completeness auto
termination
  by (relation "inv_image (less_than <*lex*> less_than)
        (\<lambda>x. case x of
           Inl (L, W, c, pageURL, depth, s) \<Rightarrow> (2 * nat (maxDepth c - depth) + 1, 0)
         | Inr (L, W, c, depth, hrefs, tree, s) \<Rightarrow> (2 * nat (maxDepth c - depth), length hrefs))")
    auto

text \<open>\<^verbatim>\<open>Crawler.Run\<close>: mark the root as visited, crawl it at depth 0.\<close>

definition Run :: "urllib \<Rightarrow> World \<Rightarrow> Crawler \<Rightarrow> state \<Rightarrow> (failure + URLTree) \<times> state" where
  "Run L W c s =
     (case EnsureContains L (visited s) (root c) of
        None \<Rightarrow> (Inl Panic, s)
      | Some (existed, v) \<Rightarrow> crawl L W c (root c) 0 (s\<lparr>visited := v\<rparr>))"

text \<open>
  \<^verbatim>\<open>NewCrawler\<close>: the link must parse and be absolute (\<^verbatim>\<open>IsAbs\<close>: a scheme that is
  not empty); an empty path becomes \<^verbatim>\<open>/\<close>; the set of visited URLs starts empty.
\<close>

definition NewCrawler :: "urllib \<Rightarrow> string \<Rightarrow> int \<Rightarrow> goerror + (Crawler \<times> state)" where
  "NewCrawler L link maxDepth' =
     (case url_Parse L link of
        None \<Rightarrow> Inl (Wrapf (Err ''parse'') (''failed to parse '' @ link))
      | Some root' \<Rightarrow>
          if Scheme root' = [] then Inl (Err ''you must specify an absolute URL'')
          else Inr (\<lparr>root = (if Path root' = [] then root'\<lparr>Path := ''/''\<rparr> else root'),
                      maxDepth = maxDepth'\<rparr>,
                    \<lparr>visited = {}, clock = 0, fetched = []\<rparr>))"

text \<open>
  What \<^verbatim>\<open>crawl\<close> does for a page before its loop, when the limiter has been called
  \<open>n\<close> times before: wait, fetch, extract. Its value is the links of the page, or
  the failure that \<^verbatim>\<open>crawl\<close> returns for the page.
\<close>

definition page_links :: "urllib \<Rightarrow> World \<Rightarrow> nat \<Rightarrow> URL \<Rightarrow> failure + URL list" where
  "page_links L W n pageURL =
     (case limiter_Wait W n of
        Some err \<Rightarrow>
          Inl (Error (Wrapf err (''error while waiting to be allowed to crawl '' @ url_String L pageURL)))
      | None \<Rightarrow>
          (case fetch L W n pageURL of
             Inl err \<Rightarrow> Inl (Error (Wrapf err (''error fetching '' @ url_String L pageURL)))
           | Inr page \<Rightarrow>
               (case uniqueLinksInPage L W page pageURL of
                  Inl Panic \<Rightarrow> Inl Panic
                | Inl (Error err) \<Rightarrow>
                    Inl (Error (Wrapf err (''error finding links on '' @ url_String L pageURL)))
                | Inr hrefs \<Rightarrow> Inr hrefs)))"

section \<open>Printing the tree\<close>

text \<open>
  \<^verbatim>\<open>URLTree.string\<close> collects the keys of the map, sorts them with \<^verbatim>\<open>sort.Sort\<close> under
  \<^verbatim>\<open>IgnoringScheme.Less\<close> (the byte-wise order of the strings \<^verbatim>\<open>withoutScheme\<close> gives)
  and writes every link on a line of its own, after \<^verbatim>\<open>indent\<close> times two spaces,
  followed by its sub tree when that has entries.

  \<^verbatim>\<open>sort.Sort\<close> returns at once on fewer than two elements and otherwise compares every
  element at least once, so the sort panics exactly when there are two entries or more
  and some key cannot be computed. The entries are sorted together with their sub
  trees, which is what looking \<^verbatim>\<open>t[link]\<close> up after the sort gives; the order of the
  list of entries stands for the order in which \<^verbatim>\<open>range\<close> appends the keys to the slice
  that is sorted. \<^verbatim>\<open>sort.Sort\<close> is not
  stable and the order in which \<^verbatim>\<open>range\<close> hands it the keys is not fixed: where two keys
  of a map compare equal, the order of their lines is not determined by the source, and
  \<open>sort_key\<close> below (which keeps such entries in the order of the list) is one of the
  orders that can come out. Where the keys differ pairwise, the sorted order is unique.
\<close>

definition sort_IgnoringScheme ::
  "urllib \<Rightarrow> (URL \<times> URLTree) list \<Rightarrow> (URL \<times> URLTree) list option" where
  "sort_IgnoringScheme L entries =
     (if length entries \<le> 1 then Some entries
      else if list_ex (\<lambda>e. withoutScheme L (fst e) = None) entries then None
      else Some (sort_key (\<lambda>e. withoutScheme L (fst e)) entries))"

lemma size_list_mset_cong:
  "mset xs = mset ys \<Longrightarrow> size_list f xs = size_list f ys"
proof -
  assume eq: "mset xs = mset ys"
  have "\<And>zs. size_list f zs = sum_mset (image_mset f (mset zs)) + size (mset zs)"
    by (induct_tac zs) auto
  then show ?thesis using eq mset_eq_length [OF eq] by simp
qed

lemma sort_IgnoringScheme_mset:
  "sort_IgnoringScheme L entries = Some links \<Longrightarrow> mset links = mset entries"
  by (auto simp: sort_IgnoringScheme_def split: if_splits)

function URLTree_string :: "urllib \<Rightarrow> URLTree \<Rightarrow> nat \<Rightarrow> string option"
  and write_links :: "urllib \<Rightarrow> (URL \<times> URLTree) list \<Rightarrow> nat \<Rightarrow> string option" where
  "URLTree_string L NilTree indent = Some []"
| "URLTree_string L (Tree entries) indent =
     (case sort_IgnoringScheme L entries of
        None \<Rightarrow> None
      | Some links \<Rightarrow> write_links L links indent)"
| "write_links L [] indent = Some []"
| "write_links L ((link, subTree) # links) indent =
     (case (if len subTree \<noteq> 0 then URLTree_string L subTree (indent + 1) else Some []) of
        None \<Rightarrow> None
      | Some below \<Rightarrow>
          (case write_links L links indent of
             None \<Rightarrow> None
           | Some rest \<Rightarrow>
               Some (concat (replicate indent ''  '') @ url_String L link @ ''\<newline>''
                     @ below @ rest)))"
  by pat_completeness auto
termination
proof (relation "measure (\<lambda>x. case x of
           Inl (L, t, indent) \<Rightarrow> 2 * size t + 1
         | Inr (L, links, indent) \<Rightarrow> 2 * size_list (size_prod (\<lambda>_. 0) size) links)")
  show "wf (measure (\<lambda>x. case x of
           Inl (L, t, indent) \<Rightarrow> 2 * size t + 1
         | Inr (L, links, indent) \<Rightarrow> 2 * size_list (size_prod (\<lambda>_. 0) size) links))"
    by simp
next
  fix L entries links and indent :: nat
  assume "sort_IgnoringScheme L entries = Some links"
  then have "size_list (size_prod (\<lambda>_. 0) size) links = size_list (size_prod (\<lambda>_. 0) size) entries"
    by (intro size_list_mset_cong sort_IgnoringScheme_mset)
  then show "(Inr (L, links, indent), Inl (L, Tree entries, indent)) \<in> measure (\<lambda>x. case x of
           Inl (L, t, indent) \<Rightarrow> 2 * size t + 1
         | Inr (L, links, indent) \<Rightarrow> 2 * size_list (size_prod (\<lambda>_. 0) size) links)"
    by simp
qed auto

text \<open>\<^verbatim>\<open>URLTree.String\<close>.\<close>

definition URLTree_String :: "urllib \<Rightarrow> URLTree \<Rightarrow> string option" where
  "URLTree_String L t = URLTree_string L t 0"

section \<open>The goroutine crawler\<close>

text \<open>
  The first version of the crawler (\<^verbatim>\<open>crawler.go\<close>, with \<^verbatim>\<open>LinkTree\<close> and \<^verbatim>\<open>funnel\<close>)
  starts one goroutine for every link, each sending one \<^verbatim>\<open>result\<close> on a channel of its
  own, and \<^verbatim>\<open>collectResults\<close> reads the channel in which \<^verbatim>\<open>funnel\<close> merges them until
  it is closed. \<^verbatim>\<open>LinkTree\<close> is \<^verbatim>\<open>map[string]LinkTree\<close>: its keys are strings, so storing
  under a key that is present overwrites. The argument of \<open>collectResults\<close> is the list
  of the results in the order in which they arrive on the merged channel; which order
  that is, \<^verbatim>\<open>funnel\<close> does not fix.
\<close>

datatype LinkTree = NilLinkTree | LinkTree "(string \<times> LinkTree) list"

record result =
  res_link :: string
  res_tree :: LinkTree
  res_err :: "goerror option"

fun collect_loop :: "result list \<Rightarrow> (string \<times> LinkTree) list \<Rightarrow> goerror + LinkTree" where
  "collect_loop [] tree = Inr (LinkTree tree)"
| "collect_loop (res # combined) tree =
     (case res_err res of
        Some e \<Rightarrow> Inl e
      | None \<Rightarrow> collect_loop combined (AList.update (res_link res) (res_tree res) tree))"

definition collectResults :: "result list \<Rightarrow> goerror + LinkTree" where
  "collectResults combined = collect_loop combined []"

text \<open>
  \<^verbatim>\<open>Crawler.parseToAbsURL\<close> of \<^verbatim>\<open>crawler.go\<close>: parse the link, give an empty path the
  value \<^verbatim>\<open>/\<close>, resolve against \<^verbatim>\<open>c.root\<close>, whatever page the link comes from. \<open>None\<close>
  is the error return.
\<close>

definition Crawler_parseToAbsURL :: "urllib \<Rightarrow> Crawler \<Rightarrow> string \<Rightarrow> URL option" where
  "Crawler_parseToAbsURL L c link =
     (case url_Parse L link of
        None \<Rightarrow> None
      | Some parsed \<Rightarrow>
          Some (url_ResolveReference L (root c)
                  (if Path parsed = [] then parsed\<lparr>Path := ''/''\<rparr> else parsed)))"

text \<open>\<^verbatim>\<open>Crawler.fetchPage\<close>: build the request for the link, send it, return the body.\<close>

definition fetchPage :: "World \<Rightarrow> nat \<Rightarrow> string \<Rightarrow> goerror + string" where
  "fetchPage W n link =
     (case http_NewRequest W link of
        Some err \<Rightarrow> Inl err
      | None \<Rightarrow> client_Do W n link)"

text \<open>
  \<^verbatim>\<open>findLinksInPage\<close> takes the page and nothing else. Its closure loops over the
  attributes of an anchor. At an \<^verbatim>\<open>href\<close> whose value does not parse it returns; at an
  \<^verbatim>\<open>href\<close> whose key (the key of the value as it is written, not resolved) is new on
  the page, it appends the value of the attribute, as it is written, and returns; at an
  \<^verbatim>\<open>href\<close> whose key was seen on the page it goes on to the next attribute. The state
  is the pair of \<^verbatim>\<open>links\<close> and the keys in \<^verbatim>\<open>seenOnPage\<close>. \<^verbatim>\<open>walkLinks\<close> of
  \<^verbatim>\<open>crawler.go\<close> has the body of the walk of the later version.
\<close>

type_synonym found = "string list \<times> string set"

fun findLinks_visitLink :: "urllib \<Rightarrow> Attribute list \<Rightarrow> found \<Rightarrow> found option" where
  "findLinks_visitLink L [] st = Some st"
| "findLinks_visitLink L (attr # attrs) (links, seenOnPage) =
     (if Key attr = ''href'' then
        (case url_Parse L (Val attr) of
           None \<Rightarrow> Some (links, seenOnPage)
         | Some href \<Rightarrow>
             (case withoutScheme L href of
                None \<Rightarrow> None
              | Some key \<Rightarrow>
                  (case LinkSet_EnsureContains seenOnPage key of
                     (existed, seenOnPage') \<Rightarrow>
                       if \<not> existed then Some (links @ [Val attr], seenOnPage')
                       else findLinks_visitLink L attrs (links, seenOnPage'))))
      else findLinks_visitLink L attrs (links, seenOnPage))"

fun findLinks_walkLinks :: "urllib \<Rightarrow> Node \<Rightarrow> found \<Rightarrow> found option"
  and findLinks_walkSiblings :: "urllib \<Rightarrow> Node list \<Rightarrow> found \<Rightarrow> found option" where
  "findLinks_walkLinks L (Node t d attrs children) st =
     (if t = ElementNode \<and> d = ''a'' then findLinks_visitLink L attrs st
      else findLinks_walkSiblings L children st)"
| "findLinks_walkSiblings L [] st = Some st"
| "findLinks_walkSiblings L (c # cs) st =
     (case findLinks_walkLinks L c st of
        None \<Rightarrow> None
      | Some st' \<Rightarrow> findLinks_walkSiblings L cs st')"

definition findLinksInPage :: "urllib \<Rightarrow> World \<Rightarrow> string \<Rightarrow> failure + string list" where
  "findLinksInPage L W page =
     (case html_Parse W page of
        Inl err \<Rightarrow> Inl (Error (Wrapf err ''error parsing page''))
      | Inr doc \<Rightarrow>
          (case findLinks_walkLinks L doc ([], {}) of
             None \<Rightarrow> Inl Panic
           | Some (links, seenOnPage) \<Rightarrow> Inr links))"

text \<open>
  \<^verbatim>\<open>Crawler.crawl\<close> of \<^verbatim>\<open>crawler.go\<close>. It marks the URL as visited and returns a nil tree
  and a nil error if it was marked before, if \<^verbatim>\<open>depth\<close> equals \<^verbatim>\<open>maxDepth\<close> or if the
  host is not the host of the root. Otherwise it waits, fetches the page and finds its
  links. Its loop resolves every link with \<^verbatim>\<open>c.parseToAbsURL\<close> (an error ends the
  call) and starts a goroutine that calls \<^verbatim>\<open>crawl\<close> for the resolved URL at
  \<^verbatim>\<open>depth + 1\<close> and sends one \<^verbatim>\<open>result\<close>, whose \<^verbatim>\<open>link\<close> is the string of that URL:
  \<open>fanout\<close> is the list of the URLs the goroutines are started with. Then it returns
  what \<^verbatim>\<open>collectResults\<close> makes of the merged channel. The goroutines run at the same
  time as each other and as every other goroutine of the crawl: \<open>funnelled urls\<close>
  stands for the results that are read from the merged channel, in the order of their
  arrival, when goroutines were started for \<open>urls\<close>. The state that is returned is
  the state after the steps of this call; what the goroutines do to the set and to the
  limiter is not in it.
\<close>

fun fanout :: "urllib \<Rightarrow> Crawler \<Rightarrow> string list \<Rightarrow> URL list \<Rightarrow> failure + URL list" where
  "fanout L c [] urls = Inr urls"
| "fanout L c (link # links) urls =
     (case Crawler_parseToAbsURL L c link of
        None \<Rightarrow> Inl (Error (Wrapf (Err ''parse'') (''error normalizing link '' @ link)))
      | Some url \<Rightarrow> fanout L c links (urls @ [url]))"

definition LinkTree_crawl ::
  "urllib \<Rightarrow> World \<Rightarrow> Crawler \<Rightarrow> URL \<Rightarrow> int \<Rightarrow> (URL list \<Rightarrow> result list) \<Rightarrow> state
     \<Rightarrow> (failure + LinkTree) \<times> state" where
  "LinkTree_crawl L W c u depth funnelled s =
     (case withoutScheme L u of
        None \<Rightarrow> (Inl Panic, s)
      | Some key \<Rightarrow>
          (case LinkSet_EnsureContains (visited s) key of
             (existed, v) \<Rightarrow>
               if existed then (Inr NilLinkTree, s\<lparr>visited := v\<rparr>)
               else if depth = maxDepth c \<or> url_Hostname L u \<noteq> url_Hostname L (root c)
               then (Inr NilLinkTree, s\<lparr>visited := v\<rparr>)
               else
                 (case limiter_Wait W (clock s) of
                    Some err \<Rightarrow>
                      (Inl (Error (Wrapf err (''error while waiting to be allowed to crawl '' @ url_String L u))),
                       s\<lparr>visited := v, clock := Suc (clock s)\<rparr>)
                  | None \<Rightarrow>
                      (let s1 = s\<lparr>visited := v, clock := Suc (clock s), fetched := fetched s @ [(u, depth)]\<rparr>
                       in case fetchPage W (clock s) (url_String L u) of
                            Inl err \<Rightarrow> (Inl (Error (Wrapf err (''error fetching '' @ url_String L u))), s1)
                          | Inr page \<Rightarrow>
                              (case findLinksInPage L W page of
                                 Inl Panic \<Rightarrow> (Inl Panic, s1)
                               | Inl (Error err) \<Rightarrow>
                                   (Inl (Error (Wrapf err (''error finding links on '' @ url_String L u))), s1)
                               | Inr links \<Rightarrow>
                                   (case fanout L c links [] of
                                      Inl f \<Rightarrow> (Inl f, s1)
                                    | Inr urls \<Rightarrow>
                                        (case collectResults (funnelled urls) of
                                           Inl err \<Rightarrow> (Inl (Error err), s1)
                                         | Inr tree \<Rightarrow> (Inr tree, s1))))))))"

text \<open>
  \<^verbatim>\<open>Crawler.Run\<close> of \<^verbatim>\<open>crawler.go\<close>: resolve the string of the root against the root,
  crawl the result at depth 0.
\<close>

definition LinkTree_Run ::
  "urllib \<Rightarrow> World \<Rightarrow> Crawler \<Rightarrow> (URL list \<Rightarrow> result list) \<Rightarrow> state \<Rightarrow> (failure + LinkTree) \<times> state" where
  "LinkTree_Run L W c funnelled s =
     (case Crawler_parseToAbsURL L c (url_String L (root c)) of
        None \<Rightarrow>
          (Inl (Error (Wrapf (Err ''parse'') (''error normalizing link '' @ url_String L (root c)))), s)
      | Some url \<Rightarrow> LinkTree_crawl L W c url 0 funnelled s)"

text \<open>
  \<^verbatim>\<open>LinkTree.string\<close> of \<^verbatim>\<open>link_tree.go\<close> collects the keys of the map, sorts them with
  \<^verbatim>\<open>sort.Strings\<close> (the byte-wise order of the strings, scheme included) and writes
  for every page \<^verbatim>\<open>indent\<close> times two spaces, a dash, a space and the page, followed by
  a colon, a newline and the sub tree where \<^verbatim>\<open>len(t[page])\<close> is not 0, and by a newline
  otherwise. A map is the list of its entries, whose keys differ pairwise; \<^verbatim>\<open>t[page]\<close>
  of a key that is absent would be the nil map.
\<close>

fun len_LinkTree :: "LinkTree \<Rightarrow> nat" where
  "len_LinkTree NilLinkTree = 0"
| "len_LinkTree (LinkTree entries) = length entries"

lemma map_of_size_LinkTree:
  "map_of entries page = Some sub \<Longrightarrow> size sub < size (LinkTree entries)"
proof -
  assume "map_of entries page = Some sub"
  then have "(page, sub) \<in> set entries" by (rule map_of_SomeD)
  then have "size sub < size_list (size_prod (\<lambda>_. 0) size) entries"
    by (rule size_list_estimation) simp
  then show ?thesis by simp
qed

function LinkTree_string :: "LinkTree \<Rightarrow> nat \<Rightarrow> string" where
  "LinkTree_string NilLinkTree indent = []"
| "LinkTree_string (LinkTree entries) indent =
     concat (map (\<lambda>page.
         concat (replicate indent ''  '') @ ''- '' @ page
         @ (case map_of entries page of
              None \<Rightarrow> ''\<newline>''
            | Some sub \<Rightarrow>
                if len_LinkTree sub \<noteq> 0 then '':\<newline>'' @ LinkTree_string sub (indent + 1)
                else ''\<newline>''))
       (sort (map fst entries)))"
  by pat_completeness auto
termination
  by (relation "measure (\<lambda>(t, indent). size t)") (auto dest: map_of_size_LinkTree)

text \<open>\<^verbatim>\<open>LinkTree.String\<close>.\<close>

definition LinkTree_String :: "LinkTree \<Rightarrow> string" where
  "LinkTree_String t = LinkTree_string t 0"

section \<open>What the extractor is to compute\<close>

text \<open>
  The description of the link extractor, written down on its own: the anchors of a
  document in pre-order, not looking below an anchor; of every anchor the value of its
  first \<^verbatim>\<open>href\<close> attribute.
\<close>

fun anchors :: "Node \<Rightarrow> Attribute list list" where
  "anchors (Node t d attrs children) =
     (if t = ElementNode \<and> d = ''a'' then [attrs] else concat (map anchors children))"

definition first_href :: "Attribute list \<Rightarrow> string option" where
  "first_href attrs = map_option Val (find (\<lambda>attr. Key attr = ''href'') attrs)"



text \<open>
  As the claim is amended below, the value is parsed, an empty path of the parsed value
  becomes \<^verbatim>\<open>/\<close>, and what results is resolved against the URL of the page:
  \<open>resolved_href\<close>. \<open>candidates\<close> are the URLs so resolved, in the order of their
  anchors, and the links of the page are the first of every identity key among them.
\<close>

definition resolved_href :: "urllib \<Rightarrow> URL \<Rightarrow> Attribute list \<Rightarrow> URL option" where
  "resolved_href L pageURL attrs =
     (case first_href attrs of
        None \<Rightarrow> None
      | Some val \<Rightarrow>
          (case url_Parse L val of
             None \<Rightarrow> None
           | Some parsed \<Rightarrow>
               Some (url_ResolveReference L pageURL
                       (if Path parsed = [] then parsed\<lparr>Path := ''/''\<rparr> else parsed))))"

definition candidates :: "urllib \<Rightarrow> URL \<Rightarrow> Node \<Rightarrow> URL list" where
  "candidates L pageURL doc = List.map_filter (resolved_href L pageURL) (anchors doc)"

fun first_of_each_key :: "urllib \<Rightarrow> URL list \<Rightarrow> string option set \<Rightarrow> URL list" where
  "first_of_each_key L [] seen = []"
| "first_of_each_key L (u # us) seen =
     (if withoutScheme L u \<in> seen then first_of_each_key L us seen
      else u # first_of_each_key L us (insert (withoutScheme L u) seen))"




text \<open>The visitor applied to a list of anchors, one after the other.\<close>

fun visit_all :: "urllib \<Rightarrow> URL \<Rightarrow> Attribute list list \<Rightarrow> extraction \<Rightarrow> extraction option" where
  "visit_all L pageURL [] st = Some st"
| "visit_all L pageURL (attrs # rest) st =
     (case visitLink L pageURL attrs st of
        None \<Rightarrow> None
      | Some st' \<Rightarrow> visit_all L pageURL rest st')"

section \<open>Properties of trees\<close>

text \<open>
  \<open>leaves_beyond D h t\<close>: in the tree \<open>t\<close>, whose entries are \<open>h\<close> hops from the
  entrypoint, every entry more than \<open>D\<close> hops away has no sub tree.
\<close>

fun leaves_beyond :: "int \<Rightarrow> int \<Rightarrow> URLTree \<Rightarrow> bool" where
  "leaves_beyond D h NilTree = True"
| "leaves_beyond D h (Tree entries) =
     list_all (\<lambda>e. (if D < h then snd e = NilTree else True) \<and> leaves_beyond D (h + 1) (snd e)) entries"

text \<open>
  \<open>distinct_keys L t\<close>: at every level of \<open>t\<close>, the identity keys of the entries can
  be computed and differ pairwise.
\<close>

fun distinct_keys :: "urllib \<Rightarrow> URLTree \<Rightarrow> bool" where
  "distinct_keys L NilTree = True"
| "distinct_keys L (Tree entries) =
     (list_all (\<lambda>e. withoutScheme L (fst e) \<noteq> None \<and> distinct_keys L (snd e)) entries
      \<and> distinct (map (\<lambda>e. withoutScheme L (fst e)) entries))"

text \<open>
  \<open>same_map t t'\<close>: the two trees are the same map at every level, their entries
  listed in any two orders.
\<close>

inductive same_map :: "URLTree \<Rightarrow> URLTree \<Rightarrow> bool" where
  same_Nil: "same_map NilTree NilTree"
| same_Tree: "mset (map fst entries) = mset (map fst entries') \<Longrightarrow>
     (\<forall>e \<in> set entries. \<forall>e' \<in> set entries'. fst e = fst e' \<longrightarrow> same_map (snd e) (snd e')) \<Longrightarrow>
     same_map (Tree entries) (Tree entries')"

text \<open>
  \<open>lists_page_links L W pages u t\<close>: \<open>t\<close> is the sub tree of the link \<open>u\<close> in the
  tree of a run whose fetches were \<open>pages\<close>, each with the number of calls of the
  limiter before it. Where \<open>t\<close> is a map, \<open>u\<close> is one of the pages fetched and the
  keys of \<open>t\<close> are the links that were extracted from that page, all of them and in
  their order; and the same holds for every sub tree of \<open>t\<close>.
\<close>

fun lists_page_links :: "urllib \<Rightarrow> World \<Rightarrow> (nat \<times> URL) list \<Rightarrow> URL \<Rightarrow> URLTree \<Rightarrow> bool" where
  "lists_page_links L W pages u NilTree = True"
| "lists_page_links L W pages u (Tree entries) =
     (list_ex (\<lambda>p. snd p = u \<and> page_links L W (fst p) u = Inr (map fst entries)) pages
      \<and> list_all (\<lambda>e. lists_page_links L W pages (fst e) (snd e)) entries)"

text \<open>
  \<open>distinct_pages t\<close>: the list of entries is a map at every level of the
  \<^verbatim>\<open>LinkTree\<close> (no key twice). \<open>same_LinkTree t t'\<close>: the two are the same map at
  every level, their entries listed in any two orders.
\<close>

fun distinct_pages :: "LinkTree \<Rightarrow> bool" where
  "distinct_pages NilLinkTree = True"
| "distinct_pages (LinkTree entries) =
     (distinct (map fst entries) \<and> list_all (\<lambda>e. distinct_pages (snd e)) entries)"

inductive same_LinkTree :: "LinkTree \<Rightarrow> LinkTree \<Rightarrow> bool" where
  same_NilLinkTree: "same_LinkTree NilLinkTree NilLinkTree"
| same_LinkTree: "mset (map fst entries) = mset (map fst entries') \<Longrightarrow>
     (\<forall>e \<in> set entries. \<forall>e' \<in> set entries'. fst e = fst e' \<longrightarrow> same_LinkTree (snd e) (snd e')) \<Longrightarrow>
     same_LinkTree (LinkTree entries) (LinkTree entries')"

section \<open>A library and a world for concrete runs\<close>

text \<open>
  An instance of \<open>urllib\<close>, written after net/url for URL strings made of an optional
  lower-case scheme, an optional \<^verbatim>\<open>//host\<close> and a path. It accepts less than net/url:
  a string with any other character (upper case, \<^verbatim>\<open>?\<close>, \<^verbatim>\<open>#\<close>, \<^verbatim>\<open>%\<close>, \<^verbatim>\<open>@\<close>, ...), with a
  colon after the scheme (a port), or with a scheme that is not followed by \<^verbatim>\<open>//\<close> is
  rejected; a path is resolved without removing \<^verbatim>\<open>.\<close> and \<^verbatim>\<open>..\<close> segments; and printing
  looks at the scheme, the host, the path, the query and the fragment only, without
  escaping. It is used for the concrete runs below; the theorems about the crawler hold
  for every \<open>urllib\<close>.
\<close>

definition is_letter :: "char \<Rightarrow> bool" where
  "is_letter ch =
     (CHR ''a'' \<le> ch \<and> ch \<le> CHR ''z'' \<or> CHR ''A'' \<le> ch \<and> ch \<le> CHR ''Z'')"

definition is_scheme_char :: "char \<Rightarrow> bool" where
  "is_scheme_char ch =
     (CHR ''0'' \<le> ch \<and> ch \<le> CHR ''9'' \<or> ch = CHR ''+'' \<or> ch = CHR ''-'' \<or> ch = CHR ''.'')"

text \<open>
  \<^verbatim>\<open>getScheme\<close> of net/url: the scheme ends at the first colon, has letters, digits,
  \<^verbatim>\<open>+\<close>, \<^verbatim>\<open>-\<close> and \<^verbatim>\<open>.\<close> only and starts with a letter; otherwise there is none. \<open>scanned\<close>
  is the part of \<open>rawURL\<close> the loop has passed.
\<close>

fun getScheme_loop :: "string \<Rightarrow> string \<Rightarrow> string \<Rightarrow> (string \<times> string) option" where
  "getScheme_loop rawURL scanned [] = Some ([], rawURL)"
| "getScheme_loop rawURL scanned (ch # rest) =
     (if is_letter ch then getScheme_loop rawURL (scanned @ [ch]) rest
      else if is_scheme_char ch then
        (if scanned = [] then Some ([], rawURL) else getScheme_loop rawURL (scanned @ [ch]) rest)
      else if ch = CHR '':'' then
        (if scanned = [] then None else Some (scanned, rest))
      else Some ([], rawURL))"

definition getScheme :: "string \<Rightarrow> (string \<times> string) option" where
  "getScheme rawURL = getScheme_loop rawURL [] rawURL"

definition plain_char :: "char \<Rightarrow> bool" where
  "plain_char ch =
     (CHR ''a'' \<le> ch \<and> ch \<le> CHR ''z'' \<or> CHR ''0'' \<le> ch \<and> ch \<le> CHR ''9''
      \<or> ch = CHR ''-'' \<or> ch = CHR ''.'' \<or> ch = CHR ''/'' \<or> ch = CHR '':'')"

definition plain_Parse :: "string \<Rightarrow> URL option" where
  "plain_Parse rawURL =
     (if \<not> list_all plain_char rawURL then None
      else case getScheme rawURL of
        None \<Rightarrow> None
      | Some (scheme, rest) \<Rightarrow>
          if CHR '':'' \<in> set rest then None
          else if scheme \<noteq> [] \<and> take 2 rest \<noteq> ''//'' then None
          else if take 2 rest = ''//'' \<and> (scheme \<noteq> [] \<or> take 3 rest \<noteq> ''///'') then
            Some (zero_URL\<lparr>Scheme := scheme,
                    Host := takeWhile (\<lambda>ch. ch \<noteq> CHR ''/'') (drop 2 rest),
                    Path := dropWhile (\<lambda>ch. ch \<noteq> CHR ''/'') (drop 2 rest)\<rparr>)
          else Some (zero_URL\<lparr>Scheme := scheme, Path := rest\<rparr>))"

definition plain_String :: "URL \<Rightarrow> string" where
  "plain_String u =
     (if Scheme u \<noteq> [] then Scheme u @ '':'' else [])
     @ (if Scheme u \<noteq> [] \<or> Host u \<noteq> [] then
          (if Host u \<noteq> [] \<or> Path u \<noteq> [] then ''//'' else []) @ Host u
        else [])
     @ (if Path u \<noteq> [] \<and> take 1 (Path u) \<noteq> ''/'' \<and> Host u \<noteq> [] then ''/'' else [])
     @ (if Scheme u = [] \<and> Host u = [] \<and> CHR '':'' \<in> set (takeWhile (\<lambda>ch. ch \<noteq> CHR ''/'') (Path u))
        then ''./'' else [])
     @ Path u
     @ (if RawQuery u \<noteq> [] then ''?'' @ RawQuery u else [])
     @ (if Fragment u \<noteq> [] then ''#'' @ Fragment u else [])"

text \<open>
  \<^verbatim>\<open>resolvePath\<close> without the removal of dot segments: a reference that starts with a
  slash replaces the path of the base, any other one replaces what follows the last
  slash of the base; the result starts with a slash.
\<close>

definition plain_resolvePath :: "string \<Rightarrow> string \<Rightarrow> string" where
  "plain_resolvePath base ref =
     (let full = (if ref = [] then base
                  else if take 1 ref \<noteq> ''/''
                  then rev (dropWhile (\<lambda>ch. ch \<noteq> CHR ''/'') (rev base)) @ ref
                  else ref)
      in if full = [] then [] else if take 1 full = ''/'' then full else ''/'' @ full)"

definition plain_ResolveReference :: "URL \<Rightarrow> URL \<Rightarrow> URL" where
  "plain_ResolveReference u ref =
     (if Scheme ref \<noteq> [] \<or> Host ref \<noteq> [] then
        ref\<lparr>Scheme := (if Scheme ref = [] then Scheme u else Scheme ref),
            Path := plain_resolvePath (Path ref) []\<rparr>
      else
        ref\<lparr>Scheme := Scheme u, Host := Host u,
            Path := plain_resolvePath (Path u) (Path ref),
            RawQuery := (if Path ref = [] \<and> RawQuery ref = [] then RawQuery u else RawQuery ref),
            Fragment := (if Path ref = [] \<and> RawQuery ref = [] \<and> Fragment ref = []
                         then Fragment u else Fragment ref)\<rparr>)"

definition plain_url :: urllib where
  "plain_url =
     \<lparr>url_Parse = plain_Parse, url_String = plain_String,
      url_ResolveReference = plain_ResolveReference, url_Hostname = Host\<rparr>"

text \<open>
  A world in the manner of the test server of \<^verbatim>\<open>crawler_test.go\<close>: a site is a list of
  addresses, each with the links of its page; the limiter never fails; the body of a
  page stands for itself (it is the address), and parsing it gives a document with one
  anchor for every link, followed by a paragraph.
\<close>

definition anchor :: "string \<Rightarrow> Node" where
  "anchor href =
     Node ElementNode ''a'' [\<lparr>Namespace = [], Key = ''href'', Val = href\<rparr>] [Node TextNode href [] []]"

definition document :: "string list \<Rightarrow> Node" where
  "document hrefs =
     Node DocumentNode [] []
       [Node DoctypeNode ''html'' [] [],
        Node ElementNode ''html'' [\<lparr>Namespace = [], Key = ''lang'', Val = ''en''\<rparr>]
          [Node ElementNode ''head'' [] [Node ElementNode ''title'' [] [Node TextNode ''No Links'' [] []]],
           Node ElementNode ''body'' []
             (map anchor hrefs
              @ [Node ElementNode ''p'' [] [Node TextNode ''This is a non-anchor node.'' [] []]])]]"

definition site_world :: "(string \<times> string list) list \<Rightarrow> World" where
  "site_world site =
     \<lparr>limiter_Wait = (\<lambda>n. None),
      http_NewRequest = (\<lambda>url. None),
      client_Do = (\<lambda>n url. case map_of site url of
                              None \<Rightarrow> Inl (Err ''connection refused'')
                            | Some hrefs \<Rightarrow> Inr url),
      html_Parse = (\<lambda>body. case map_of site body of
                              None \<Rightarrow> Inl (Err ''unexpected EOF'')
                            | Some hrefs \<Rightarrow> Inr (document hrefs))\<rparr>"

text \<open>
  A site of three pages on the host \<^verbatim>\<open>h\<close>: the entry page links to \<^verbatim>\<open>/a\<close> and \<^verbatim>\<open>/b\<close>,
  \<^verbatim>\<open>/a\<close> links to \<^verbatim>\<open>http://h/x\<close> and \<^verbatim>\<open>/b\<close> to \<^verbatim>\<open>https://h/x\<close>.
\<close>

definition example_site :: "(string \<times> string list) list" where
  "example_site =
     [(''http://h/entry'', [''/a'', ''/b'']),
      (''http://h/a'', [''http://h/x'']),
      (''http://h/b'', [''https://h/x''])]"

definition example_crawler :: "int \<Rightarrow> Crawler" where
  "example_crawler D =
     \<lparr>root = zero_URL\<lparr>Scheme := ''http'', Host := ''h'', Path := ''/entry''\<rparr>,
      maxDepth = D\<rparr>"

definition fresh :: state where
  "fresh = \<lparr>visited = {}, clock = 0, fetched = []\<rparr>"

definition url_x :: URL where
  "url_x = zero_URL\<lparr>Scheme := ''http'', Host := ''h'', Path := ''/x''\<rparr>"

definition url_xs :: URL where
  "url_xs = zero_URL\<lparr>Scheme := ''https'', Host := ''h'', Path := ''/x''\<rparr>"

text \<open>The failure of the example site when \<^verbatim>\<open>http://h/x\<close>, which it does not serve, is fetched.\<close>

definition refused :: failure where
  "refused = Error (Wrapf (Err ''connection refused'') ''error fetching http://h/x'')"

text \<open>
  A page with four anchors outside other anchors: one with a class and two \<^verbatim>\<open>href\<close>
  attributes (and an anchor nested in it), one whose \<^verbatim>\<open>href\<close> does not parse, one that
  names the target of the first in full, and two in a \<^verbatim>\<open>div\<close> that differ in their scheme
  only. \<open>page_world doc\<close> serves that document at every address.
\<close>

definition example_doc :: Node where
  "example_doc =
     Node ElementNode ''body'' []
       [Node ElementNode ''a''
          [\<lparr>Namespace = [], Key = ''class'', Val = ''first''\<rparr>,
           \<lparr>Namespace = [], Key = ''href'', Val = ''foo''\<rparr>,
           \<lparr>Namespace = [], Key = ''href'', Val = ''/second''\<rparr>]
          [anchor ''/nested''],
        anchor ''%zz'',
        anchor ''http://h/dir/foo'',
        Node ElementNode ''div'' [] [anchor ''/bar'', anchor ''https://h/bar'']]"

definition page_world :: "Node \<Rightarrow> World" where
  "page_world doc =
     \<lparr>limiter_Wait = (\<lambda>n. None), http_NewRequest = (\<lambda>url. None),
      client_Do = (\<lambda>n url. Inr url), html_Parse = (\<lambda>body. Inr doc)\<rparr>"

definition url_of :: "string \<Rightarrow> string \<Rightarrow> URL" where
  "url_of scheme path = zero_URL\<lparr>Scheme := scheme, Host := ''h'', Path := path\<rparr>"

text \<open>Two lists of the entries of one tree, whose keys differ pairwise once the scheme is erased.\<close>

definition sorted_example :: URLTree where
  "sorted_example =
     Tree [(url_of ''http'' ''/b'', NilTree), (url_of ''https'' ''/a'', Tree [(url_x, NilTree)])]"

definition sorted_example' :: URLTree where
  "sorted_example' =
     Tree [(url_of ''https'' ''/a'', Tree [(url_x, NilTree)]), (url_of ''http'' ''/b'', NilTree)]"



definition self_site :: "(string \<times> string list) list" where
  "self_site = [(''http://h/entry'', [''/entry''])]"

definition external_site :: "(string \<times> string list) list" where
  "external_site = [(''http://h/entry'', [''http://b/'', ''https://a/''])]"

text \<open>
  The results of goroutines that all return a nil tree and a nil error (as \<^verbatim>\<open>crawl\<close> of
  \<^verbatim>\<open>crawler.go\<close> does at the maximum depth, on another host and for a URL visited
  before), in the order in which they were started.
\<close>

definition leaf_results :: "urllib \<Rightarrow> URL list \<Rightarrow> result list" where
  "leaf_results L urls =
     map (\<lambda>url. \<lparr>res_link = url_String L url, res_tree = NilLinkTree, res_err = None\<rparr>) urls"

text \<open>
  The tree of the run of the later crawler on the example site, the tree of the run of
  the earlier crawler on the site with the two other hosts, and two lists of the entries
  of one \<^verbatim>\<open>LinkTree\<close>.
\<close>

definition example_tree :: URLTree where
  "example_tree =
     Tree [(url_of ''http'' ''/a'', Tree [(url_x, NilTree)]),
           (url_of ''http'' ''/b'', Tree [(url_xs, NilTree)])]"

definition external_tree :: LinkTree where
  "external_tree = LinkTree [(''http://b/'', NilLinkTree), (''https://a/'', NilLinkTree)]"

definition pages_example :: LinkTree where
  "pages_example =
     LinkTree [(''http://h/b'', NilLinkTree),
               (''http://h/a'', LinkTree [(''http://h/x'', NilLinkTree)])]"

definition pages_example' :: LinkTree where
  "pages_example' =
     LinkTree [(''http://h/a'', LinkTree [(''http://h/x'', NilLinkTree)]),
               (''http://h/b'', NilLinkTree)]"

section \<open>Reasoning about a crawl\<close>

text \<open>The outcomes of one call of \<^verbatim>\<open>crawl\<close> and of one round of its loop.\<close>

declare crawl.simps [simp del] crawl_links.simps [simp del]

text \<open>The crawler of the examples is the one \<^verbatim>\<open>NewCrawler\<close> makes for the entry page.\<close>

lemma NewCrawler_example:
  "NewCrawler plain_url ''http://h/entry'' D = Inr (example_crawler D, fresh)"
  by (simp add: NewCrawler_def example_crawler_def fresh_def plain_url_def plain_Parse_def
      getScheme_def plain_char_def is_letter_def is_scheme_char_def)

lemma crawl_cases [consumes 1, case_names wait fetch panic extraction links]:
  assumes "crawl L W c pageURL depth s = (r, s')"
  obtains
    (wait) err where "limiter_Wait W (clock s) = Some err"
      "r = Inl (Error (Wrapf err (''error while waiting to be allowed to crawl '' @ url_String L pageURL)))"
      "s' = s\<lparr>clock := Suc (clock s)\<rparr>"
  | (fetch) err where "limiter_Wait W (clock s) = None" "fetch L W (clock s) pageURL = Inl err"
      "r = Inl (Error (Wrapf err (''error fetching '' @ url_String L pageURL)))"
      "s' = s\<lparr>clock := Suc (clock s), fetched := fetched s @ [(pageURL, depth)]\<rparr>"
  | (panic) page where "limiter_Wait W (clock s) = None" "fetch L W (clock s) pageURL = Inr page"
      "uniqueLinksInPage L W page pageURL = Inl Panic" "r = Inl Panic"
      "s' = s\<lparr>clock := Suc (clock s), fetched := fetched s @ [(pageURL, depth)]\<rparr>"
  | (extraction) page err where "limiter_Wait W (clock s) = None" "fetch L W (clock s) pageURL = Inr page"
      "uniqueLinksInPage L W page pageURL = Inl (Error err)"
      "r = Inl (Error (Wrapf err (''error finding links on '' @ url_String L pageURL)))"
      "s' = s\<lparr>clock := Suc (clock s), fetched := fetched s @ [(pageURL, depth)]\<rparr>"
  | (links) page hrefs where "limiter_Wait W (clock s) = None" "fetch L W (clock s) pageURL = Inr page"
      "uniqueLinksInPage L W page pageURL = Inr hrefs"
      "crawl_links L W c depth hrefs []
         (s\<lparr>clock := Suc (clock s), fetched := fetched s @ [(pageURL, depth)]\<rparr>) = (r, s')"
  using assms
  by (subst (asm) crawl.simps) (auto split: option.splits sum.splits failure.splits)

lemma crawl_links_cases [consumes 1, case_names panic seen bound fail expand]:
  assumes "crawl_links L W c depth (href # hrefs) tree s = (r, s')"
  obtains
    (panic) "EnsureContains L (visited s) href = None" "r = Inl Panic" "s' = s"
  | (seen) v where "EnsureContains L (visited s) href = Some (True, v)"
      "crawl_links L W c depth hrefs (tree @ [(href, NilTree)]) (s\<lparr>visited := v\<rparr>) = (r, s')"
  | (bound) v where "EnsureContains L (visited s) href = Some (False, v)"
      "maxDepth c \<le> depth + 1 \<or> url_Hostname L href \<noteq> url_Hostname L (root c)"
      "crawl_links L W c depth hrefs (tree @ [(href, NilTree)]) (s\<lparr>visited := v\<rparr>) = (r, s')"
  | (fail) v f where "EnsureContains L (visited s) href = Some (False, v)"
      "depth + 1 < maxDepth c" "url_Hostname L href = url_Hostname L (root c)"
      "crawl L W c href (depth + 1) (s\<lparr>visited := v\<rparr>) = (Inl f, s')" "r = Inl f"
  | (expand) v subTree s1 where "EnsureContains L (visited s) href = Some (False, v)"
      "depth + 1 < maxDepth c" "url_Hostname L href = url_Hostname L (root c)"
      "crawl L W c href (depth + 1) (s\<lparr>visited := v\<rparr>) = (Inr subTree, s1)"
      "crawl_links L W c depth hrefs (tree @ [(href, subTree)]) s1 = (r, s')"
  using assms
  by (subst (asm) crawl_links.simps)
    (auto split: option.splits sum.splits prod.splits if_splits bool.splits)

text \<open>Computation induction with the library, the world and the crawler fixed.\<close>

lemma crawl_induct [case_names crawl Nil Cons]:
  assumes "\<And>pageURL depth s.
      (\<And>page hrefs. limiter_Wait W (clock s) = None \<Longrightarrow> fetch L W (clock s) pageURL = Inr page \<Longrightarrow>
          uniqueLinksInPage L W page pageURL = Inr hrefs \<Longrightarrow>
          Q depth hrefs [] (s\<lparr>clock := Suc (clock s), fetched := fetched s @ [(pageURL, depth)]\<rparr>)) \<Longrightarrow>
      P pageURL depth s"
    and "\<And>depth tree s. Q depth [] tree s"
    and "\<And>depth href hrefs tree s.
      (\<And>v. EnsureContains L (visited s) href = Some (True, v) \<Longrightarrow>
          Q depth hrefs (tree @ [(href, NilTree)]) (s\<lparr>visited := v\<rparr>)) \<Longrightarrow>
      (\<And>v. EnsureContains L (visited s) href = Some (False, v) \<Longrightarrow>
          maxDepth c \<le> depth + 1 \<or> url_Hostname L href \<noteq> url_Hostname L (root c) \<Longrightarrow>
          Q depth hrefs (tree @ [(href, NilTree)]) (s\<lparr>visited := v\<rparr>)) \<Longrightarrow>
      (\<And>v. EnsureContains L (visited s) href = Some (False, v) \<Longrightarrow>
          depth + 1 < maxDepth c \<Longrightarrow> url_Hostname L href = url_Hostname L (root c) \<Longrightarrow>
          P href (depth + 1) (s\<lparr>visited := v\<rparr>)) \<Longrightarrow>
      (\<And>v subTree s1. EnsureContains L (visited s) href = Some (False, v) \<Longrightarrow>
          depth + 1 < maxDepth c \<Longrightarrow> url_Hostname L href = url_Hostname L (root c) \<Longrightarrow>
          crawl L W c href (depth + 1) (s\<lparr>visited := v\<rparr>) = (Inr subTree, s1) \<Longrightarrow>
          Q depth hrefs (tree @ [(href, subTree)]) s1) \<Longrightarrow>
      Q depth (href # hrefs) tree s"
  shows "P pageURL depth s" and "Q depth hrefs tree s"
proof -
  have "P' L' W' c' pageURL depth s" and "Q' L' W' c' depth hrefs tree s"
    if "P' = (\<lambda>L' W' c' pageURL depth s. L' = L \<longrightarrow> W' = W \<longrightarrow> c' = c \<longrightarrow> P pageURL depth s)"
      and "Q' = (\<lambda>L' W' c' depth hrefs tree s. L' = L \<longrightarrow> W' = W \<longrightarrow> c' = c \<longrightarrow> Q depth hrefs tree s)"
    for P' Q' L' W' c'
  proof (induction L' W' c' pageURL depth s and L' W' c' depth hrefs tree s
      rule: crawl_crawl_links.induct)
    case (1 L1 W1 c1 pageURL depth s)
    then show ?case unfolding that by (auto intro!: assms(1))
  next
    case (2 L1 W1 c1 depth tree s)
    then show ?case unfolding that by (auto intro!: assms(2))
  next
    case (3 L1 W1 c1 depth href hrefs tree s)
    show ?case unfolding that
    proof (intro impI)
      assume eq: "L1 = L" "W1 = W" "c1 = c"
      show "Q depth (href # hrefs) tree s"
      proof (rule assms(3))
        fix v assume "EnsureContains L (visited s) href = Some (True, v)"
        then show "Q depth hrefs (tree @ [(href, NilTree)]) (s\<lparr>visited := v\<rparr>)"
          using "3.IH"(1)[of "(True, v)" True v] eq unfolding that by simp
      next
        fix v assume "EnsureContains L (visited s) href = Some (False, v)"
          "maxDepth c \<le> depth + 1 \<or> url_Hostname L href \<noteq> url_Hostname L (root c)"
        then show "Q depth hrefs (tree @ [(href, NilTree)]) (s\<lparr>visited := v\<rparr>)"
          using "3.IH"(2)[of "(False, v)" False v] eq unfolding that by simp
      next
        fix v assume "EnsureContains L (visited s) href = Some (False, v)"
          "depth + 1 < maxDepth c" "url_Hostname L href = url_Hostname L (root c)"
        then show "P href (depth + 1) (s\<lparr>visited := v\<rparr>)"
          using "3.IH"(3)[of "(False, v)" False v] eq unfolding that by simp
      next
        fix v subTree s1 assume "EnsureContains L (visited s) href = Some (False, v)"
          "depth + 1 < maxDepth c" "url_Hostname L href = url_Hostname L (root c)"
          "crawl L W c href (depth + 1) (s\<lparr>visited := v\<rparr>) = (Inr subTree, s1)"
        then show "Q depth hrefs (tree @ [(href, subTree)]) s1"
          using "3.IH"(4)[of "(False, v)" False v "Inr subTree" s1 subTree] eq unfolding that by simp
      qed
    qed
  qed
  then show "P pageURL depth s" and "Q depth hrefs tree s" by blast+
qed




section \<open>The depth bound\<close>

text \<open>
  Every page fetched during \<^verbatim>\<open>crawl\<close> at some depth is fetched at that depth or at a
  greater depth below \<^verbatim>\<open>maxDepth\<close>, and a link gets a sub tree only where its depth is
  below \<^verbatim>\<open>maxDepth\<close>.
\<close>

lemma crawl_fetched_depth:
  "crawl L W c pageURL depth s = (r, s') \<Longrightarrow>
     \<exists>new. fetched s' = fetched s @ new \<and> list_all (\<lambda>p. snd p = depth \<or> depth < snd p \<and> snd p < maxDepth c) new"
  "crawl_links L W c depth hrefs tree s = (r, s') \<Longrightarrow>
     \<exists>new. fetched s' = fetched s @ new \<and> list_all (\<lambda>p. depth < snd p \<and> snd p < maxDepth c) new"
proof (induction pageURL depth s and depth hrefs tree s arbitrary: r s' and r s'
    rule: crawl_induct [where L = L and W = W and c = c])
  case (crawl pageURL depth s)
  from crawl.prems show ?case
  proof (cases rule: crawl_cases)
    case (links page hrefs)
    from crawl.IH [OF links] obtain new where
      "fetched s' = fetched s @ (pageURL, depth) # new"
      "list_all (\<lambda>p. depth < snd p \<and> snd p < maxDepth c) new"
      by auto
    then show ?thesis by (auto simp: list_all_iff)
  qed auto
next
  case (Nil depth tree s)
  then show ?case by (simp add: crawl_links.simps)
next
  case (Cons depth href hrefs tree s)
  from Cons.prems show ?case
  proof (cases rule: crawl_links_cases)
    case panic
    then show ?thesis by simp
  next
    case (seen v)
    from Cons.IH(1) [OF seen] show ?thesis by simp
  next
    case (bound v)
    from Cons.IH(2) [OF bound] show ?thesis by simp
  next
    case (fail v f)
    from Cons.IH(3) [OF fail(1-4)] fail(2) show ?thesis
      by (fastforce simp: list_all_iff)
  next
    case (expand v subTree s1)
    from Cons.IH(3) [OF expand(1-4)] obtain new1 where n1: "fetched s1 = fetched s @ new1"
      "list_all (\<lambda>p. snd p = depth + 1 \<or> depth + 1 < snd p \<and> snd p < maxDepth c) new1"
      by auto
    from Cons.IH(4) [OF expand(1-5)] obtain new2 where n2: "fetched s' = fetched s1 @ new2"
      "list_all (\<lambda>p. depth < snd p \<and> snd p < maxDepth c) new2"
      by auto
    from n1 n2 expand(2) have "fetched s' = fetched s @ (new1 @ new2)"
      "list_all (\<lambda>p. depth < snd p \<and> snd p < maxDepth c) (new1 @ new2)"
      by (auto simp: list_all_iff)
    then show ?thesis by blast
  qed
qed

lemma crawl_leaves_beyond:
  "crawl L W c pageURL depth s = (Inr t, s') \<Longrightarrow> leaves_beyond (maxDepth c) (depth + 1) t"
  "crawl_links L W c depth hrefs tree s = (Inr t, s') \<Longrightarrow>
     leaves_beyond (maxDepth c) (depth + 1) (Tree tree) \<Longrightarrow> leaves_beyond (maxDepth c) (depth + 1) t"
proof (induction pageURL depth s and depth hrefs tree s arbitrary: t s' and t s'
    rule: crawl_induct [where L = L and W = W and c = c])
  case (crawl pageURL depth s)
  from crawl.prems show ?case
  proof (cases rule: crawl_cases)
    case (links page hrefs)
    from crawl.IH [OF links] show ?thesis by simp
  qed auto
next
  case (Nil depth tree s)
  then show ?case by (simp add: crawl_links.simps)
next
  case (Cons depth href hrefs tree s)
  from Cons.prems(1) show ?case
  proof (cases rule: crawl_links_cases)
    case panic
    then show ?thesis by simp
  next
    case (seen v)
    from Cons.IH(1) [OF seen] Cons.prems(2) show ?thesis by simp
  next
    case (bound v)
    from Cons.IH(2) [OF bound] Cons.prems(2) show ?thesis by simp
  next
    case (fail v f)
    then show ?thesis by simp
  next
    case (expand v subTree s1)
    from Cons.IH(3) [OF expand(1-4)] have "leaves_beyond (maxDepth c) (depth + 1 + 1) subTree" .
    with Cons.prems(2) expand(2) have "leaves_beyond (maxDepth c) (depth + 1) (Tree (tree @ [(href, subTree)]))"
      by simp
    from Cons.IH(4) [OF expand(1-5) this] show ?thesis .
  qed
qed

text \<open>
  C1, as amended. For every maximum depth \<open>D \<ge> 0\<close> and every run, every page fetched is
  fetched at a depth of at most \<open>D\<close>: no URL more than \<open>D\<close> hops from the entrypoint is
  fetched. In the tree returned, whose entries are one hop from the entrypoint, an entry
  more than \<open>D\<close> hops away has no sub tree.
\<close>

theorem depth_bound:
  assumes "0 \<le> maxDepth c" and "Run L W c s = (r, s')"
  shows "\<exists>new. fetched s' = fetched s @ new \<and> list_all (\<lambda>p. snd p \<le> maxDepth c) new
           \<and> (case r of Inl f \<Rightarrow> True | Inr t \<Rightarrow> leaves_beyond (maxDepth c) 1 t)"
proof (cases "EnsureContains L (visited s) (root c)")
  case None
  with assms(2) show ?thesis by (auto simp: Run_def)
next
  case (Some p)
  obtain existed v where p: "p = (existed, v)" by (cases p)
  with Some assms(2) have run: "crawl L W c (root c) 0 (s\<lparr>visited := v\<rparr>) = (r, s')"
    by (simp add: Run_def)
  from crawl_fetched_depth(1) [OF run] obtain new where
    new: "fetched s' = fetched s @ new" "list_all (\<lambda>p. snd p = 0 \<or> 0 < snd p \<and> snd p < maxDepth c) new"
    by auto
  from new(2) assms(1) have "list_all (\<lambda>p. snd p \<le> maxDepth c) new"
    by (auto simp: list_all_iff)
  moreover have "case r of Inl f \<Rightarrow> True | Inr t \<Rightarrow> leaves_beyond (maxDepth c) 1 t"
    using crawl_leaves_beyond(1) [of L W c "root c" 0 "s\<lparr>visited := v\<rparr>" _ s'] run
    by (cases r) auto
  ultimately show ?thesis using new(1) by blast
qed

theorem depth_bound_witness:
  "0 \<le> maxDepth (example_crawler 2)
   \<and> map snd (fetched (snd (Run plain_url (site_world example_site) (example_crawler 2) fresh))) = [0, 1, 1]
   \<and> list_all (\<lambda>p. snd p \<le> 2)
        (fetched (snd (Run plain_url (site_world example_site) (example_crawler 2) fresh)))
   \<and> (case fst (Run plain_url (site_world example_site) (example_crawler 2) fresh) of
          Inl f \<Rightarrow> False | Inr t \<Rightarrow> leaves_beyond 2 1 t)"
proof -
  let ?run = "Run plain_url (site_world example_site) (example_crawler 2) fresh"
  have D: "0 \<le> maxDepth (example_crawler 2)" by (simp add: example_crawler_def)
  have run: "?run = (fst ?run, snd ?run)" by simp
  have tree: "\<not> isl (fst ?run)" by code_simp
  have trace: "map snd (fetched (snd ?run)) = [0, 1, 1]" by code_simp
  from depth_bound [OF D run] tree trace D show ?thesis
    by (cases "fst ?run") (auto simp: fresh_def example_crawler_def)
qed

text \<open>
  The claim as it is written, for every \<open>D\<close>, fails for a negative one: with
  \<^verbatim>\<open>-depth=-1\<close> the entrypoint itself, which is 0 hops away, is fetched.
\<close>

theorem depth_bound_counterexample:
  "\<not> list_all (\<lambda>p. snd p \<le> maxDepth (example_crawler (- 1)))
        (fetched (snd (Run plain_url (site_world example_site) (example_crawler (- 1)) fresh)))"
  by code_simp

section \<open>The tree of the entry page\<close>

lemma crawl_page_links_Inr:
  assumes "crawl L W c pageURL depth s = (Inr t, s')"
  obtains hrefs where "page_links L W (clock s) pageURL = Inr hrefs"
    "crawl_links L W c depth hrefs []
       (s\<lparr>clock := Suc (clock s), fetched := fetched s @ [(pageURL, depth)]\<rparr>) = (Inr t, s')"
  using assms by (cases rule: crawl_cases) (auto simp: page_links_def)

lemma crawl_page_links_Inl:
  assumes "crawl L W c pageURL depth s = (Inl f, s')"
  obtains "page_links L W (clock s) pageURL = Inl f" "clock s' = Suc (clock s)"
  | hrefs where "page_links L W (clock s) pageURL = Inr hrefs"
    "crawl_links L W c depth hrefs []
       (s\<lparr>clock := Suc (clock s), fetched := fetched s @ [(pageURL, depth)]\<rparr>) = (Inl f, s')"
  using assms by (cases rule: crawl_cases) (auto simp: page_links_def)

lemma crawl_links_entries:
  "crawl_links L W c depth hrefs tree s = (Inr t, s') \<Longrightarrow>
     \<exists>entries. t = Tree entries \<and> map fst entries = map fst tree @ hrefs"
proof (induction hrefs arbitrary: tree s)
  case Nil
  then show ?case by (auto simp: crawl_links.simps)
next
  case (Cons href hrefs)
  from Cons.prems show ?case
    by (cases rule: crawl_links_cases) (auto dest!: Cons.IH)
qed

lemma collect_loop_keys:
  "collect_loop combined tree = Inr t \<Longrightarrow>
     \<exists>entries. t = LinkTree entries \<and> fst ` set entries = fst ` set tree \<union> res_link ` set combined"
proof (induction combined arbitrary: tree)
  case Nil
  then show ?case by auto
next
  case (Cons res combined)
  from Cons.prems have "collect_loop combined (AList.update (res_link res) (res_tree res) tree) = Inr t"
    by (auto split: option.splits)
  from Cons.IH [OF this] show ?case by (auto simp: AList.dom_update)
qed

lemma collectResults_keys:
  "collectResults combined = Inr t \<Longrightarrow>
     \<exists>entries. t = LinkTree entries \<and> fst ` set entries = res_link ` set combined"
  unfolding collectResults_def by (drule collect_loop_keys) simp

lemma LinkTree_crawl_admitted:
  assumes "LinkTree_crawl L W c u depth funnelled s = (Inr t, s')"
    and "withoutScheme L u = Some k" "k \<notin> visited s"
    and "depth \<noteq> maxDepth c" "url_Hostname L u = url_Hostname L (root c)"
  shows "\<exists>page links urls. fetchPage W (clock s) (url_String L u) = Inr page
           \<and> findLinksInPage L W page = Inr links \<and> fanout L c links [] = Inr urls
           \<and> collectResults (funnelled urls) = Inr t"
  using assms
  by (auto simp: LinkTree_crawl_def LinkSet_EnsureContains_def Let_def
      split: option.splits sum.splits failure.splits)

lemma LinkTree_crawl_bound:
  assumes "withoutScheme L u = Some k" "depth = maxDepth c"
  shows "fst (LinkTree_crawl L W c u depth funnelled s) = Inr NilLinkTree"
  using assms by (simp add: LinkTree_crawl_def LinkSet_EnsureContains_def)

text \<open>
  C4, as amended. A run of the later crawler that completes without error returns a
  tree that is not nil: it is a map with one entry for every link found on the entry
  page, admitted or not, so it is the empty map exactly when no link was found on the
  entry page. A run of the earlier crawler that completes without error with a maximum
  depth other than 0, on an entry page that was not visited before, returns a map too:
  the one \<^verbatim>\<open>collectResults\<close> built, with a key for every result it received (the root,
  resolved against itself, is taken to have an identity key and the host of the root,
  as it has with net/url). With the maximum depth 0 the earlier crawler returns the nil
  tree and no error.
\<close>

theorem root_tree_never_nil:
  "(Run L W c s = (Inr t, s') \<longrightarrow>
      (\<exists>hrefs entries. page_links L W (clock s) (root c) = Inr hrefs
           \<and> t = Tree entries \<and> map fst entries = hrefs \<and> (entries = [] \<longleftrightarrow> hrefs = [])))
   \<and> (LinkTree_Run L W c funnelled s = (Inr lt, s1) \<and> maxDepth c \<noteq> 0
        \<and> Crawler_parseToAbsURL L c (url_String L (root c)) = Some u \<and> withoutScheme L u = Some k
        \<and> k \<notin> visited s \<and> url_Hostname L u = url_Hostname L (root c) \<longrightarrow>
        (\<exists>page links urls entries. fetchPage W (clock s) (url_String L u) = Inr page
           \<and> findLinksInPage L W page = Inr links \<and> fanout L c links [] = Inr urls
           \<and> lt = LinkTree entries \<and> fst ` set entries = res_link ` set (funnelled urls)))
   \<and> (Crawler_parseToAbsURL L c (url_String L (root c)) = Some u \<and> withoutScheme L u = Some k
        \<and> maxDepth c = 0 \<longrightarrow>
        fst (LinkTree_Run L W c funnelled s) = Inr NilLinkTree)"
proof (intro conjI impI)
  assume "Run L W c s = (Inr t, s')"
  then obtain v where
    run: "crawl L W c (root c) 0 (s\<lparr>visited := v\<rparr>) = (Inr t, s')"
    by (auto simp: Run_def split: option.splits)
  from run obtain hrefs where hrefs: "page_links L W (clock s) (root c) = Inr hrefs"
    "crawl_links L W c 0 hrefs []
       (s\<lparr>visited := v, clock := Suc (clock s), fetched := fetched s @ [(root c, 0)]\<rparr>) = (Inr t, s')"
    by (rule crawl_page_links_Inr) auto
  from crawl_links_entries [OF hrefs(2)] obtain entries where
    "t = Tree entries" "map fst entries = hrefs" by auto
  with hrefs(1) show "\<exists>hrefs entries. page_links L W (clock s) (root c) = Inr hrefs
           \<and> t = Tree entries \<and> map fst entries = hrefs \<and> (entries = [] \<longleftrightarrow> hrefs = [])"
    by auto
next
  assume a: "LinkTree_Run L W c funnelled s = (Inr lt, s1) \<and> maxDepth c \<noteq> 0
        \<and> Crawler_parseToAbsURL L c (url_String L (root c)) = Some u \<and> withoutScheme L u = Some k
        \<and> k \<notin> visited s \<and> url_Hostname L u = url_Hostname L (root c)"
  then have "LinkTree_crawl L W c u 0 funnelled s = (Inr lt, s1)"
    by (auto simp: LinkTree_Run_def)
  from LinkTree_crawl_admitted [OF this, of k] a
  obtain page links urls where parts: "fetchPage W (clock s) (url_String L u) = Inr page"
    "findLinksInPage L W page = Inr links" "fanout L c links [] = Inr urls"
    "collectResults (funnelled urls) = Inr lt"
    by auto
  from collectResults_keys [OF parts(4)] parts(1-3)
  show "\<exists>page links urls entries. fetchPage W (clock s) (url_String L u) = Inr page
           \<and> findLinksInPage L W page = Inr links \<and> fanout L c links [] = Inr urls
           \<and> lt = LinkTree entries \<and> fst ` set entries = res_link ` set (funnelled urls)"
    by blast
next
  assume "Crawler_parseToAbsURL L c (url_String L (root c)) = Some u \<and> withoutScheme L u = Some k
        \<and> maxDepth c = 0"
  then show "fst (LinkTree_Run L W c funnelled s) = Inr NilLinkTree"
    by (simp add: LinkTree_Run_def LinkTree_crawl_bound)
qed

theorem root_tree_never_nil_witness:
  "(\<exists>hrefs entries.
      page_links plain_url (site_world example_site) (clock fresh) (root (example_crawler 2)) = Inr hrefs
      \<and> fst (Run plain_url (site_world example_site) (example_crawler 2) fresh) = Inr (Tree entries)
      \<and> map fst entries = hrefs \<and> (entries = [] \<longleftrightarrow> hrefs = []) \<and> length entries = 2)
   \<and> fst (LinkTree_Run plain_url (site_world example_site) (example_crawler 1) (leaf_results plain_url) fresh)
       = Inr (LinkTree [(''http://h/a'', NilLinkTree), (''http://h/b'', NilLinkTree)])
   \<and> (\<exists>page links urls entries.
         fetchPage (site_world example_site) (clock fresh) ''http://h/entry'' = Inr page
         \<and> findLinksInPage plain_url (site_world example_site) page = Inr links
         \<and> fanout plain_url (example_crawler 1) links [] = Inr urls
         \<and> LinkTree [(''http://h/a'', NilLinkTree), (''http://h/b'', NilLinkTree)] = LinkTree entries
         \<and> fst ` set entries = res_link ` set (leaf_results plain_url urls))
   \<and> fst (LinkTree_Run plain_url (site_world example_site) (example_crawler 0) (leaf_results plain_url) fresh)
       = Inr NilLinkTree"
proof -
  let ?W = "site_world example_site"
  let ?run = "Run plain_url ?W (example_crawler 2) fresh"
  let ?old = "LinkTree_Run plain_url ?W (example_crawler 1) (leaf_results plain_url) fresh"
  let ?lt = "LinkTree [(''http://h/a'', NilLinkTree), (''http://h/b'', NilLinkTree)]"
  let ?u = "zero_URL\<lparr>Scheme := ''http'', Host := ''h'', Path := ''/entry''\<rparr>"
  have "\<not> isl (fst ?run)" by code_simp
  then have run: "?run = (Inr (projr (fst ?run)), snd ?run)" by (simp add: prod_eq_iff)
  have two: "len (projr (fst ?run)) = 2" by code_simp
  from root_tree_never_nil [where L = plain_url and W = ?W and c = "example_crawler 2" and s = fresh,
      THEN conjunct1, THEN mp, OF run] two
  have 1: "\<exists>hrefs entries.
      page_links plain_url ?W (clock fresh) (root (example_crawler 2)) = Inr hrefs
      \<and> fst ?run = Inr (Tree entries)
      \<and> map fst entries = hrefs \<and> (entries = [] \<longleftrightarrow> hrefs = []) \<and> length entries = 2"
    using run by (metis fst_conv len.simps(2))
  have "fst ?old = Inr ?lt" by code_simp
  then have old: "?old = (Inr ?lt, snd ?old)" by (simp add: prod_eq_iff)
  have hyps: "maxDepth (example_crawler 1) \<noteq> 0
      \<and> Crawler_parseToAbsURL plain_url (example_crawler 1) (url_String plain_url (root (example_crawler 1))) = Some ?u
      \<and> withoutScheme plain_url ?u = Some ''//h/entry''
      \<and> ''//h/entry'' \<notin> visited fresh
      \<and> url_Hostname plain_url ?u = url_Hostname plain_url (root (example_crawler 1))"
    by code_simp
  have str: "url_String plain_url ?u = ''http://h/entry''" by code_simp
  from root_tree_never_nil [where L = plain_url and W = ?W and c = "example_crawler 1" and s = fresh
      and funnelled = "leaf_results plain_url" and lt = ?lt and ?s1.0 = "snd ?old" and u = ?u
      and k = "''//h/entry''",
      THEN conjunct2, THEN conjunct1, THEN mp, OF conjI [OF old hyps]]
  have 2: "\<exists>page links urls entries.
         fetchPage ?W (clock fresh) ''http://h/entry'' = Inr page
         \<and> findLinksInPage plain_url ?W page = Inr links
         \<and> fanout plain_url (example_crawler 1) links [] = Inr urls
         \<and> ?lt = LinkTree entries
         \<and> fst ` set entries = res_link ` set (leaf_results plain_url urls)"
    unfolding str .
  have hyps0: "Crawler_parseToAbsURL plain_url (example_crawler 0) (url_String plain_url (root (example_crawler 0))) = Some ?u
      \<and> withoutScheme plain_url ?u = Some ''//h/entry'' \<and> maxDepth (example_crawler 0) = 0"
    by code_simp
  from root_tree_never_nil [where L = plain_url and c = "example_crawler 0" and u = ?u and k = "''//h/entry''"
      and W = ?W and funnelled = "leaf_results plain_url" and s = fresh,
      THEN conjunct2, THEN conjunct2, THEN mp, OF hyps0]
  have 3: "fst (LinkTree_Run plain_url ?W (example_crawler 0) (leaf_results plain_url) fresh) = Inr NilLinkTree" .
  from 1 \<open>fst ?old = Inr ?lt\<close> 2 3 show ?thesis by blast
qed

text \<open>
  The claim as it is written fails twice. The earlier crawler, started with the maximum
  depth 0, completes without error and returns a nil tree. And the tree of the later
  crawler is not empty where links were found and none was admitted: on a site whose
  entry page links to itself only, nothing but the entry page is fetched and the tree
  has one entry.
\<close>

theorem root_tree_never_nil_counterexample:
  "fst (LinkTree_Run plain_url (site_world example_site) (example_crawler 0) (leaf_results plain_url) fresh)
     = Inr NilLinkTree
   \<and> page_links plain_url (site_world self_site) (clock fresh) (root (example_crawler 2))
     = Inr [url_of ''http'' ''/entry'']
   \<and> fetched (snd (Run plain_url (site_world self_site) (example_crawler 2) fresh))
     = [(url_of ''http'' ''/entry'', 0)]
   \<and> fst (Run plain_url (site_world self_site) (example_crawler 2) fresh)
     = Inr (Tree [(url_of ''http'' ''/entry'', NilTree)])"
  by code_simp

section \<open>Failures\<close>

text \<open>
  A run that returns a tree has made all its waits, fetches and extractions with
  success; a run that fails returns the failure of the step that failed.
\<close>

lemma crawl_success_steps:
  "crawl L W c pageURL depth s = (Inr t, s') \<Longrightarrow>
     \<exists>new. fetched s' = fetched s @ new \<and> clock s' = clock s + length new
       \<and> (\<forall>i < length new. \<not> isl (page_links L W (clock s + i) (fst (new ! i))))"
  "crawl_links L W c depth hrefs tree s = (Inr t, s') \<Longrightarrow>
     \<exists>new. fetched s' = fetched s @ new \<and> clock s' = clock s + length new
       \<and> (\<forall>i < length new. \<not> isl (page_links L W (clock s + i) (fst (new ! i))))"
proof (induction pageURL depth s and depth hrefs tree s arbitrary: t s' and t s'
    rule: crawl_induct [where L = L and W = W and c = c])
  case (crawl pageURL depth s)
  from crawl.prems show ?case
  proof (cases rule: crawl_cases)
    case (links page hrefs)
    from crawl.IH [OF links] obtain new where new:
      "fetched s' = fetched s @ (pageURL, depth) # new" "clock s' = Suc (clock s) + length new"
      "\<forall>i < length new. \<not> isl (page_links L W (Suc (clock s) + i) (fst (new ! i)))"
      by auto
    have first: "\<not> isl (page_links L W (clock s) pageURL)"
      using links(1-3) by (simp add: page_links_def)
    have "\<forall>i < length ((pageURL, depth) # new).
            \<not> isl (page_links L W (clock s + i) (fst (((pageURL, depth) # new) ! i)))"
    proof (intro allI impI)
      fix i assume "i < length ((pageURL, depth) # new)"
      then show "\<not> isl (page_links L W (clock s + i) (fst (((pageURL, depth) # new) ! i)))"
        using first new(3) by (cases i) auto
    qed
    with new(1,2) show ?thesis by (intro exI [of _ "(pageURL, depth) # new"]) simp
  qed auto
next
  case (Nil depth tree s)
  then show ?case by (simp add: crawl_links.simps)
next
  case (Cons depth href hrefs tree s)
  from Cons.prems show ?case
  proof (cases rule: crawl_links_cases)
    case panic
    then show ?thesis by simp
  next
    case (seen v)
    from Cons.IH(1) [OF seen] show ?thesis by simp
  next
    case (bound v)
    from Cons.IH(2) [OF bound] show ?thesis by simp
  next
    case (fail v f)
    then show ?thesis by simp
  next
    case (expand v subTree s1)
    from Cons.IH(3) [OF expand(1-4)] obtain new1 where n1: "fetched s1 = fetched s @ new1"
      "clock s1 = clock s + length new1"
      "\<forall>i < length new1. \<not> isl (page_links L W (clock s + i) (fst (new1 ! i)))"
      by auto
    from Cons.IH(4) [OF expand(1-5)] obtain new2 where n2: "fetched s' = fetched s1 @ new2"
      "clock s' = clock s1 + length new2"
      "\<forall>i < length new2. \<not> isl (page_links L W (clock s1 + i) (fst (new2 ! i)))"
      by auto
    have "\<forall>i < length (new1 @ new2). \<not> isl (page_links L W (clock s + i) (fst ((new1 @ new2) ! i)))"
    proof (intro allI impI)
      fix i assume i: "i < length (new1 @ new2)"
      show "\<not> isl (page_links L W (clock s + i) (fst ((new1 @ new2) ! i)))"
      proof (cases "i < length new1")
        case True
        with n1(3) show ?thesis by (simp add: nth_append)
      next
        case False
        with i have "i - length new1 < length new2" by simp
        with n2(3) have "\<not> isl (page_links L W (clock s1 + (i - length new1)) (fst (new2 ! (i - length new1))))"
          by blast
        with False n1(2) show ?thesis by (simp add: nth_append)
      qed
    qed
    with n1(1,2) n2(1,2) show ?thesis by (intro exI [of _ "new1 @ new2"]) simp
  qed
qed

lemma crawl_clock_mono:
  "crawl L W c pageURL depth s = (r, s') \<Longrightarrow> clock s < clock s'"
  "crawl_links L W c depth hrefs tree s = (r, s') \<Longrightarrow> clock s \<le> clock s'"
proof (induction pageURL depth s and depth hrefs tree s arbitrary: r s' and r s'
    rule: crawl_induct [where L = L and W = W and c = c])
  case (crawl pageURL depth s)
  from crawl.prems show ?case
  proof (cases rule: crawl_cases)
    case (links page hrefs)
    from crawl.IH [OF links] show ?thesis by simp
  qed auto
next
  case (Nil depth tree s)
  then show ?case by (simp add: crawl_links.simps)
next
  case (Cons depth href hrefs tree s)
  from Cons.prems show ?case
  proof (cases rule: crawl_links_cases)
    case panic
    then show ?thesis by simp
  next
    case (seen v)
    from Cons.IH(1) [OF seen] show ?thesis by simp
  next
    case (bound v)
    from Cons.IH(2) [OF bound] show ?thesis by simp
  next
    case (fail v f)
    from Cons.IH(3) [OF fail(1-4)] show ?thesis by simp
  next
    case (expand v subTree s1)
    from Cons.IH(3) [OF expand(1-4)] Cons.IH(4) [OF expand(1-5)] show ?thesis by simp
  qed
qed

lemma crawl_failure_origin:
  "crawl L W c pageURL depth s = (Inl f, s') \<Longrightarrow>
     clock s < clock s' \<and> (f = Panic \<or> (\<exists>u. page_links L W (clock s' - 1) u = Inl f))"
  "crawl_links L W c depth hrefs tree s = (Inl f, s') \<Longrightarrow>
     f = Panic \<or> (clock s < clock s' \<and> (\<exists>u. page_links L W (clock s' - 1) u = Inl f))"
proof (induction pageURL depth s and depth hrefs tree s arbitrary: f s' and f s'
    rule: crawl_induct [where L = L and W = W and c = c])
  case (crawl pageURL depth s)
  from crawl.prems show ?case
  proof (cases rule: crawl_page_links_Inl)
    case 1
    then show ?thesis by auto
  next
    case (2 hrefs)
    then have "\<not> isl (page_links L W (clock s) pageURL)" by simp
    then obtain page where "limiter_Wait W (clock s) = None" "fetch L W (clock s) pageURL = Inr page"
      "uniqueLinksInPage L W page pageURL = Inr hrefs"
      using 2(1) by (auto simp: page_links_def split: option.splits sum.splits failure.splits)
    from crawl.IH [OF this 2(2)] crawl_clock_mono(2) [OF 2(2)] show ?thesis
      by auto
  qed
next
  case (Nil depth tree s)
  then show ?case by (simp add: crawl_links.simps)
next
  case (Cons depth href hrefs tree s)
  from Cons.prems show ?case
  proof (cases rule: crawl_links_cases)
    case panic
    then show ?thesis by simp
  next
    case (seen v)
    from Cons.IH(1) [OF seen] show ?thesis by simp
  next
    case (bound v)
    from Cons.IH(2) [OF bound] show ?thesis by simp
  next
    case (fail v f')
    from Cons.IH(3) [OF fail(1-4)] fail(5) show ?thesis by auto
  next
    case (expand v subTree s1)
    from crawl_clock_mono(1) [OF expand(4)] have "clock s \<le> clock s1" by simp
    with Cons.IH(4) [OF expand(1-5)] show ?thesis by auto
  qed
qed

lemma collect_loop_first_error:
  "list_all (\<lambda>res. res_err res = None) arrived \<Longrightarrow> res_err res = Some e \<Longrightarrow>
     collect_loop (arrived @ res # later) tree = Inl e"
  by (induction arrived arbitrary: tree) auto

text \<open>
  C3. In the loop of \<^verbatim>\<open>crawl\<close>, when the sub-crawl of a link fails, the loop ends there
  with that failure and no tree, and the links after it are not looked at. A run that
  returns a tree has had no failure anywhere: every page it fetched was awaited,
  fetched and parsed with success. A run that fails returns the failure of the step
  that failed, as that step reported it. In the goroutine version, \<^verbatim>\<open>collectResults\<close>
  returns the error of the first result that carries one, whatever arrives after it.
\<close>

theorem first_failure_fails_run:
  "(EnsureContains L (visited s) href = Some (False, v) \<and> depth + 1 < maxDepth c
      \<and> url_Hostname L href = url_Hostname L (root c)
      \<and> crawl L W c href (depth + 1) (s\<lparr>visited := v\<rparr>) = (Inl f, s1)
      \<longrightarrow> crawl_links L W c depth (href # hrefs) tree s = (Inl f, s1))
   \<and> (Run L W c s = (Inr t, s')
      \<longrightarrow> (\<exists>new. fetched s' = fetched s @ new \<and> clock s' = clock s + length new
            \<and> (\<forall>i < length new. \<not> isl (page_links L W (clock s + i) (fst (new ! i))))))
   \<and> (Run L W c s = (Inl f', s'')
      \<longrightarrow> f' = Panic \<or> (\<exists>u. page_links L W (clock s'' - 1) u = Inl f'))
   \<and> (list_all (\<lambda>res. res_err res = None) arrived \<and> res_err res = Some e
      \<longrightarrow> collectResults (arrived @ res # later) = Inl e)"
proof (intro conjI impI)
  assume "EnsureContains L (visited s) href = Some (False, v) \<and> depth + 1 < maxDepth c
      \<and> url_Hostname L href = url_Hostname L (root c)
      \<and> crawl L W c href (depth + 1) (s\<lparr>visited := v\<rparr>) = (Inl f, s1)"
  then show "crawl_links L W c depth (href # hrefs) tree s = (Inl f, s1)"
    by (simp add: crawl_links.simps)
next
  assume run: "Run L W c s = (Inr t, s')"
  then obtain v where "crawl L W c (root c) 0 (s\<lparr>visited := v\<rparr>) = (Inr t, s')"
    by (auto simp: Run_def split: option.splits)
  from crawl_success_steps(1) [OF this]
  show "\<exists>new. fetched s' = fetched s @ new \<and> clock s' = clock s + length new
            \<and> (\<forall>i < length new. \<not> isl (page_links L W (clock s + i) (fst (new ! i))))"
    by simp
next
  assume run: "Run L W c s = (Inl f', s'')"
  show "f' = Panic \<or> (\<exists>u. page_links L W (clock s'' - 1) u = Inl f')"
  proof (cases "EnsureContains L (visited s) (root c)")
    case None
    with run show ?thesis by (simp add: Run_def)
  next
    case (Some p)
    with run have "crawl L W c (root c) 0 (s\<lparr>visited := snd p\<rparr>) = (Inl f', s'')"
      by (simp add: Run_def split: prod.splits)
    from crawl_failure_origin(1) [OF this] show ?thesis by simp
  qed
next
  assume "list_all (\<lambda>res. res_err res = None) arrived \<and> res_err res = Some e"
  then show "collectResults (arrived @ res # later) = Inl e"
    by (simp add: collectResults_def collect_loop_first_error)
qed

theorem first_failure_fails_run_witness:
  "fst (crawl_links plain_url (site_world example_site) (example_crawler 3) 1 [url_x] [] fresh) = Inl refused
   \<and> clock (snd (Run plain_url (site_world example_site) (example_crawler 2) fresh)) = 3
   \<and> list_all (\<lambda>i. \<not> isl (page_links plain_url (site_world example_site) i
        (fst (fetched (snd (Run plain_url (site_world example_site) (example_crawler 2) fresh)) ! i)))) [0, 1, 2]
   \<and> fst (Run plain_url (site_world example_site) (example_crawler 3) fresh) = Inl refused
   \<and> (\<exists>u. page_links plain_url (site_world example_site)
          (clock (snd (Run plain_url (site_world example_site) (example_crawler 3) fresh)) - 1) u = Inl refused)
   \<and> collectResults
        [\<lparr>res_link = ''http://h/a'', res_tree = NilLinkTree, res_err = None\<rparr>,
         \<lparr>res_link = ''http://h/x'', res_tree = NilLinkTree, res_err = Some (Err ''connection refused'')\<rparr>,
         \<lparr>res_link = ''http://h/b'', res_tree = NilLinkTree, res_err = None\<rparr>]
       = Inl (Err ''connection refused'')"
proof -
  let ?L = plain_url and ?W = "site_world example_site"
  let ?sub = "crawl ?L ?W (example_crawler 3) url_x (1 + 1) (fresh\<lparr>visited := {''//h/x''}\<rparr>)"
  let ?ok = "Run ?L ?W (example_crawler 2) fresh"
  let ?bad = "Run ?L ?W (example_crawler 3) fresh"
  have sub: "EnsureContains ?L (visited fresh) url_x = Some (False, {''//h/x''})
      \<and> 1 + 1 < maxDepth (example_crawler 3)
      \<and> url_Hostname ?L url_x = url_Hostname ?L (root (example_crawler 3))
      \<and> ?sub = (Inl refused, snd ?sub)"
    by code_simp
  have ok: "?ok = (Inr (projr (fst ?ok)), snd ?ok)"
  proof -
    have "\<not> isl (fst ?ok)" by code_simp
    then show ?thesis by (simp add: prod_eq_iff)
  qed
  have bad: "?bad = (Inl refused, snd ?bad)"
  proof -
    have "fst ?bad = Inl refused" by code_simp
    then show ?thesis by (simp add: prod_eq_iff)
  qed
  have trace: "length (fetched (snd ?ok)) = 3" "fetched fresh = []" "clock fresh = 0"
    by code_simp+
  have arrived: "list_all (\<lambda>res. res_err res = None)
        [\<lparr>res_link = ''http://h/a'', res_tree = NilLinkTree, res_err = None\<rparr>]
      \<and> res_err \<lparr>res_link = ''http://h/x'', res_tree = NilLinkTree, res_err = Some (Err ''connection refused'')\<rparr>
          = Some (Err ''connection refused'')"
    by simp
  have not_panic: "refused \<noteq> Panic" by (simp add: refused_def)
  note A = first_failure_fails_run [where L = ?L and W = ?W and c = "example_crawler 3" and s = fresh
      and href = url_x and v = "{''//h/x''}" and depth = 1 and f = refused and ?s1.0 = "snd ?sub"
      and hrefs = "[]" and tree = "[]" and f' = refused and s'' = "snd ?bad"
      and arrived = "[\<lparr>res_link = ''http://h/a'', res_tree = NilLinkTree, res_err = None\<rparr>]"
      and res = "\<lparr>res_link = ''http://h/x'', res_tree = NilLinkTree, res_err = Some (Err ''connection refused'')\<rparr>"
      and e = "Err ''connection refused''"
      and later = "[\<lparr>res_link = ''http://h/b'', res_tree = NilLinkTree, res_err = None\<rparr>]"]
  note B = first_failure_fails_run [where L = ?L and W = ?W and c = "example_crawler 2" and s = fresh
      and t = "projr (fst ?ok)" and s' = "snd ?ok"]
  from A [THEN conjunct1, THEN mp, OF sub]
  have 1: "fst (crawl_links ?L ?W (example_crawler 3) 1 [url_x] [] fresh) = Inl refused"
    by (simp only: fst_conv)
  from B [THEN conjunct2, THEN conjunct1, THEN mp, OF ok] obtain new where
    new: "fetched (snd ?ok) = fetched fresh @ new" "clock (snd ?ok) = clock fresh + length new"
      "\<forall>i < length new. \<not> isl (page_links ?L ?W (clock fresh + i) (fst (new ! i)))"
    by blast
  from new trace have 2: "clock (snd ?ok) = 3
     \<and> list_all (\<lambda>i. \<not> isl (page_links ?L ?W i (fst (fetched (snd ?ok) ! i)))) [0, 1, 2]"
    by simp
  from A [THEN conjunct2, THEN conjunct2, THEN conjunct1, THEN mp, OF bad] not_panic
  have 3: "\<exists>u. page_links ?L ?W (clock (snd ?bad) - 1) u = Inl refused"
    by blast
  from A [THEN conjunct2, THEN conjunct2, THEN conjunct2, THEN mp, OF arrived]
  have 4: "collectResults
        [\<lparr>res_link = ''http://h/a'', res_tree = NilLinkTree, res_err = None\<rparr>,
         \<lparr>res_link = ''http://h/x'', res_tree = NilLinkTree, res_err = Some (Err ''connection refused'')\<rparr>,
         \<lparr>res_link = ''http://h/b'', res_tree = NilLinkTree, res_err = None\<rparr>]
       = Inl (Err ''connection refused'')"
    by simp
  have 5: "fst ?bad = Inl refused" using bad by (metis fst_conv)
  from 1 2 3 4 5 show ?thesis by blast
qed

section \<open>Visited before the bounds are looked at\<close>







section \<open>The link extractor\<close>

text \<open>
  The walk visits the anchors of the document in order; the visitor looks at the first
  \<^verbatim>\<open>href\<close> of an anchor only; so the extractor computes the first URL of every
  identity key among the resolved links, or panics where a key cannot be computed.
\<close>

lemma visit_all_append:
  "visit_all L pageURL (xs @ ys) st =
     (case visit_all L pageURL xs st of None \<Rightarrow> None | Some st' \<Rightarrow> visit_all L pageURL ys st')"
  by (induction xs arbitrary: st) (auto split: option.splits)

lemma walkLinks_visit_all:
  "walkLinks L pageURL n st = visit_all L pageURL (anchors n) st"
  "walkSiblings L pageURL ns st = visit_all L pageURL (concat (map anchors ns)) st"
proof (induction L pageURL n st and L pageURL ns st rule: walkLinks_walkSiblings.induct)
  case (1 L pageURL t d attrs children st)
  then show ?case by (auto split: option.splits)
next
  case (2 L pageURL st)
  then show ?case by simp
next
  case (3 L pageURL c cs st)
  then show ?case by (auto simp: visit_all_append split: option.splits)
qed

lemma visitLink_resolved:
  "visitLink L pageURL attrs (links, seenOnPage) =
     (case resolved_href L pageURL attrs of
        None \<Rightarrow> Some (links, seenOnPage)
      | Some href \<Rightarrow>
          (case withoutScheme L href of
             None \<Rightarrow> None
           | Some key \<Rightarrow>
               if key \<in> seenOnPage then Some (links, seenOnPage)
               else Some (links @ [href], insert key seenOnPage)))"
proof (induction attrs)
  case Nil
  then show ?case by (simp add: resolved_href_def first_href_def)
next
  case (Cons attr attrs)
  show ?case
  proof (cases "Key attr = ''href''")
    case True
    then show ?thesis
      by (auto simp: resolved_href_def first_href_def parseToAbsURL_def EnsureContains_def
          split: option.splits)
  next
    case False
    with Cons show ?thesis by (simp add: resolved_href_def first_href_def)
  qed
qed

lemma visit_all_candidates:
  "visit_all L pageURL as (links, seen) =
     (if list_all (\<lambda>u. withoutScheme L u \<noteq> None) (List.map_filter (resolved_href L pageURL) as)
      then Some (links @ first_of_each_key L (List.map_filter (resolved_href L pageURL) as) (Some ` seen),
                 seen \<union> {k. \<exists>u \<in> set (List.map_filter (resolved_href L pageURL) as). withoutScheme L u = Some k})
      else None)"
proof (induction as arbitrary: links seen)
  case Nil
  then show ?case by simp
next
  case (Cons attrs as)
  show ?case
  proof (cases "resolved_href L pageURL attrs")
    case None
    with Cons show ?thesis by (simp add: visitLink_resolved)
  next
    case (Some href)
    show ?thesis
    proof (cases "withoutScheme L href")
      case None
      with Some show ?thesis by (simp add: visitLink_resolved)
    next
      case (Some key)
      with \<open>resolved_href L pageURL attrs = Some href\<close> Cons show ?thesis
        by (auto simp: visitLink_resolved insert_absorb image_iff
            intro!: arg_cong [where f = "\<lambda>X. Some (_, X)"])
    qed
  qed
qed

lemma uniqueLinksInPage_candidates:
  assumes "html_Parse W page = Inr doc"
  shows "uniqueLinksInPage L W page pageURL =
     (if list_all (\<lambda>u. withoutScheme L u \<noteq> None) (candidates L pageURL doc)
      then Inr (first_of_each_key L (candidates L pageURL doc) {})
      else Inl Panic)"
  using assms
  by (simp add: uniqueLinksInPage_def walkLinks_visit_all visit_all_candidates candidates_def)


lemma first_of_each_key_subset: "set (first_of_each_key L us seen) \<subseteq> set us"
  by (induction us arbitrary: seen) auto

lemma first_of_each_key_unseen:
  "u \<in> set (first_of_each_key L us seen) \<Longrightarrow> withoutScheme L u \<notin> seen"
  by (induction us arbitrary: seen) (auto split: if_splits)

lemma first_of_each_key_distinct:
  "distinct (map (withoutScheme L) (first_of_each_key L us seen))"
  by (induction us arbitrary: seen) (auto dest: first_of_each_key_unseen)


lemma first_of_each_key_first:
  "u \<in> set (first_of_each_key L us seen) \<Longrightarrow>
     find (\<lambda>v. withoutScheme L v = withoutScheme L u) us = Some u"
proof (induction us arbitrary: seen)
  case Nil
  then show ?case by simp
next
  case (Cons a us)
  show ?case
  proof (cases "withoutScheme L a \<in> seen")
    case True
    with Cons.prems have u: "u \<in> set (first_of_each_key L us seen)" by simp
    then have "withoutScheme L u \<notin> seen" by (rule first_of_each_key_unseen)
    with True have "withoutScheme L a \<noteq> withoutScheme L u" by auto
    with Cons.IH [OF u] show ?thesis by simp
  next
    case False
    show ?thesis
    proof (cases "u = a")
      case True
      then show ?thesis by simp
    next
      case ne: False
      with False Cons.prems have u: "u \<in> set (first_of_each_key L us (insert (withoutScheme L a) seen))"
        by simp
      then have "withoutScheme L u \<notin> insert (withoutScheme L a) seen"
        by (rule first_of_each_key_unseen)
      then have "withoutScheme L a \<noteq> withoutScheme L u" by auto
      with Cons.IH [OF u] show ?thesis by simp
    qed
  qed
qed

lemma page_links_candidates:
  assumes "page_links L W n pageURL = Inr hrefs"
  shows "\<exists>page doc. fetch L W n pageURL = Inr page \<and> html_Parse W page = Inr doc
           \<and> list_all (\<lambda>u. withoutScheme L u \<noteq> None) (candidates L pageURL doc)
           \<and> hrefs = first_of_each_key L (candidates L pageURL doc) {}"
proof -
  from assms obtain page where page: "fetch L W n pageURL = Inr page"
    "uniqueLinksInPage L W page pageURL = Inr hrefs"
    by (auto simp: page_links_def split: option.splits sum.splits failure.splits)
  from page(2) obtain doc where doc: "html_Parse W page = Inr doc"
    by (auto simp: uniqueLinksInPage_def split: sum.splits)
  from page(2) uniqueLinksInPage_candidates [OF doc, of L pageURL]
  have "list_all (\<lambda>u. withoutScheme L u \<noteq> None) (candidates L pageURL doc)
      \<and> hrefs = first_of_each_key L (candidates L pageURL doc) {}"
    by (auto split: if_splits)
  with page(1) doc show ?thesis by blast
qed














section \<open>Calls of the visited set, one after the other\<close>

text \<open>
  Of the calls of \<^verbatim>\<open>EnsureContains\<close> made one after the other on a set, exactly one
  call for a key that was not in the set reports that the key did not exist: the
  first. What concurrent callers observe rests on the atomicity of
  \<^verbatim>\<open>sync.Map.LoadOrStore\<close> and is outside this development.
\<close>

lemma LinkSet_calls_once:
  "length (filter (\<lambda>p. fst p = key \<and> \<not> snd p) (zip urls (LinkSet_calls m urls)))
     = (if key \<in> set urls \<and> key \<notin> m then 1 else 0)"
proof (induction urls arbitrary: m)
  case Nil
  then show ?case by simp
next
  case (Cons url urls)
  have rest: "length (filter (\<lambda>p. fst p = key \<and> \<not> snd p) (zip urls (LinkSet_calls (insert url m) urls)))
      = (if key \<in> set urls \<and> key \<notin> insert url m then 1 else 0)"
    by (rule Cons.IH)
  show ?case
  proof (cases "url = key")
    case True
    with rest show ?thesis by (simp add: LinkSet_EnsureContains_def)
  next
    case False
    with rest show ?thesis by (simp add: LinkSet_EnsureContains_def)
  qed
qed

section \<open>Identity of URLs\<close>

text \<open>
  C6. The identity key of a URL is its string form, parsed again, printed with the
  scheme erased. Two URLs are the same element of the visited set exactly when their
  keys are equal: after \<^verbatim>\<open>EnsureContains\<close> of one, \<^verbatim>\<open>EnsureContains\<close> of the other
  reports that it existed if and only if the keys are the same string (for a key that
  was not in the set before). With the library for concrete runs, which computes for
  these four strings what net/url computes, \<^verbatim>\<open>http://h/p\<close> and \<^verbatim>\<open>https://h/p\<close> have the
  key \<^verbatim>\<open>//h/p\<close>, and \<^verbatim>\<open>h/p\<close> and \<^verbatim>\<open>h/p/\<close> have the keys \<^verbatim>\<open>h/p\<close> and \<^verbatim>\<open>h/p/\<close>.
\<close>

theorem identity_key_ignores_scheme:
  "(url_Parse L (url_String L u) = Some clone \<longrightarrow>
      withoutScheme L u = Some (url_String L (clone\<lparr>Scheme := []\<rparr>)))
   \<and> (withoutScheme L u = Some ku \<and> withoutScheme L v = Some kv \<and> kv \<notin> s \<longrightarrow>
        (\<exists>e1 s1 e2 s2. EnsureContains L s u = Some (e1, s1) \<and> EnsureContains L s1 v = Some (e2, s2)
           \<and> (e2 \<longleftrightarrow> ku = kv)))
   \<and> Option.bind (url_Parse plain_url ''http://h/p'') (withoutScheme plain_url) = Some ''//h/p''
   \<and> Option.bind (url_Parse plain_url ''https://h/p'') (withoutScheme plain_url) = Some ''//h/p''
   \<and> Option.bind (url_Parse plain_url ''h/p'') (withoutScheme plain_url) = Some ''h/p''
   \<and> Option.bind (url_Parse plain_url ''h/p/'') (withoutScheme plain_url) = Some ''h/p/''"
proof (intro conjI impI)
  assume "url_Parse L (url_String L u) = Some clone"
  then show "withoutScheme L u = Some (url_String L (clone\<lparr>Scheme := []\<rparr>))"
    by (simp add: withoutScheme_def)
next
  assume "withoutScheme L u = Some ku \<and> withoutScheme L v = Some kv \<and> kv \<notin> s"
  then show "\<exists>e1 s1 e2 s2. EnsureContains L s u = Some (e1, s1) \<and> EnsureContains L s1 v = Some (e2, s2)
           \<and> (e2 \<longleftrightarrow> ku = kv)"
    by (auto simp: EnsureContains_def)
next
  show "Option.bind (url_Parse plain_url ''http://h/p'') (withoutScheme plain_url) = Some ''//h/p''"
    by code_simp
  show "Option.bind (url_Parse plain_url ''https://h/p'') (withoutScheme plain_url) = Some ''//h/p''"
    by code_simp
  show "Option.bind (url_Parse plain_url ''h/p'') (withoutScheme plain_url) = Some ''h/p''"
    by code_simp
  show "Option.bind (url_Parse plain_url ''h/p/'') (withoutScheme plain_url) = Some ''h/p/''"
    by code_simp
qed

theorem identity_key_ignores_scheme_witness:
  "url_Parse plain_url (url_String plain_url url_xs) = Some url_xs
   \<and> withoutScheme plain_url url_xs = Some (url_String plain_url (url_xs\<lparr>Scheme := []\<rparr>))
   \<and> withoutScheme plain_url url_x = Some ''//h/x''
   \<and> withoutScheme plain_url url_xs = Some ''//h/x''
   \<and> ''//h/x'' \<notin> {''//h/entry''}
   \<and> (\<exists>e1 s1 e2 s2. EnsureContains plain_url {''//h/entry''} url_x = Some (e1, s1)
         \<and> EnsureContains plain_url s1 url_xs = Some (e2, s2) \<and> (e2 \<longleftrightarrow> ''//h/x'' = ''//h/x''))
   \<and> withoutScheme plain_url (url_of ''http'' ''/x/'') = Some ''//h/x/''
   \<and> (\<exists>e1 s1 e2 s2. EnsureContains plain_url {''//h/entry''} url_x = Some (e1, s1)
         \<and> EnsureContains plain_url s1 (url_of ''http'' ''/x/'') = Some (e2, s2) \<and> (e2 \<longleftrightarrow> ''//h/x'' = ''//h/x/''))"
proof -
  have clone: "url_Parse plain_url (url_String plain_url url_xs) = Some url_xs" by code_simp
  have same: "withoutScheme plain_url url_x = Some ''//h/x'' \<and> withoutScheme plain_url url_xs = Some ''//h/x''
      \<and> ''//h/x'' \<notin> {''//h/entry''}"
    by code_simp
  have other: "withoutScheme plain_url url_x = Some ''//h/x''
      \<and> withoutScheme plain_url (url_of ''http'' ''/x/'') = Some ''//h/x/'' \<and> ''//h/x/'' \<notin> {''//h/entry''}"
    by code_simp
  note A = identity_key_ignores_scheme [where L = plain_url and u = url_x and v = url_xs
      and ku = "''//h/x''" and kv = "''//h/x''" and s = "{''//h/entry''}"]
  note B = identity_key_ignores_scheme [where L = plain_url and u = url_x and v = "url_of ''http'' ''/x/''"
      and ku = "''//h/x''" and kv = "''//h/x/''" and s = "{''//h/entry''}"]
  note C = identity_key_ignores_scheme [where L = plain_url and u = url_xs and clone = url_xs]
  from C [THEN conjunct1, THEN mp, OF clone]
  have 1: "withoutScheme plain_url url_xs = Some (url_String plain_url (url_xs\<lparr>Scheme := []\<rparr>))" .
  from A [THEN conjunct2, THEN conjunct1, THEN mp, OF same]
  have 2: "\<exists>e1 s1 e2 s2. EnsureContains plain_url {''//h/entry''} url_x = Some (e1, s1)
         \<and> EnsureContains plain_url s1 url_xs = Some (e2, s2) \<and> (e2 \<longleftrightarrow> ''//h/x'' = ''//h/x'')" .
  from B [THEN conjunct2, THEN conjunct1, THEN mp, OF other]
  have 3: "\<exists>e1 s1 e2 s2. EnsureContains plain_url {''//h/entry''} url_x = Some (e1, s1)
         \<and> EnsureContains plain_url s1 (url_of ''http'' ''/x/'') = Some (e2, s2) \<and> (e2 \<longleftrightarrow> ''//h/x'' = ''//h/x/'')" .
  from clone same other 1 2 3 show ?thesis by blast
qed

section \<open>One entry for every key on a page\<close>

lemma crawl_links_subtrees:
  "crawl L W c pageURL depth s = (Inr t, s') \<Longrightarrow> distinct_keys L t"
  "crawl_links L W c depth hrefs tree s = (Inr t, s') \<Longrightarrow>
     list_all (\<lambda>e. distinct_keys L (snd e)) tree \<Longrightarrow>
     \<exists>entries. t = Tree entries \<and> map fst entries = map fst tree @ hrefs
       \<and> list_all (\<lambda>e. distinct_keys L (snd e)) entries"
proof (induction pageURL depth s and depth hrefs tree s arbitrary: t s' and t s'
    rule: crawl_induct [where L = L and W = W and c = c])
  case (crawl pageURL depth s)
  from crawl.prems show ?case
  proof (cases rule: crawl_cases)
    case (links page hrefs)
    from links(1-3) have "page_links L W (clock s) pageURL = Inr hrefs" by (simp add: page_links_def)
    from page_links_candidates [OF this] obtain doc where
      cands: "list_all (\<lambda>u. withoutScheme L u \<noteq> None) (candidates L pageURL doc)"
      "hrefs = first_of_each_key L (candidates L pageURL doc) {}" by blast
    from cands have keys: "list_all (\<lambda>u. withoutScheme L u \<noteq> None) hrefs"
      using first_of_each_key_subset [of L "candidates L pageURL doc" "{}"]
      by (auto simp: list_all_iff)
    from cands(2) have dist: "distinct (map (withoutScheme L) hrefs)"
      by (simp add: first_of_each_key_distinct)
    from crawl.IH [OF links] obtain entries where entries: "t = Tree entries" "map fst entries = hrefs"
      "list_all (\<lambda>e. distinct_keys L (snd e)) entries" by auto
    have "map (\<lambda>e. withoutScheme L (fst e)) entries = map (withoutScheme L) (map fst entries)"
      by simp
    with entries(2) dist have "distinct (map (\<lambda>e. withoutScheme L (fst e)) entries)" by simp
    moreover from keys entries(2) have "list_all (\<lambda>e. withoutScheme L (fst e) \<noteq> None) entries"
      by (fastforce simp: list_all_iff)
    ultimately show ?thesis using entries(1,3) by (auto simp: list_all_iff)
  qed auto
next
  case (Nil depth tree s)
  then show ?case by (auto simp: crawl_links.simps)
next
  case (Cons depth href hrefs tree s)
  from Cons.prems(1) show ?case
  proof (cases rule: crawl_links_cases)
    case panic
    then show ?thesis by simp
  next
    case (seen v)
    from Cons.IH(1) [OF seen] Cons.prems(2) show ?thesis by simp
  next
    case (bound v)
    from Cons.IH(2) [OF bound] Cons.prems(2) show ?thesis by simp
  next
    case (fail v f)
    then show ?thesis by simp
  next
    case (expand v subTree s1)
    from Cons.IH(3) [OF expand(1-4)] have "distinct_keys L subTree" .
    with Cons.prems(2) have "list_all (\<lambda>e. distinct_keys L (snd e)) (tree @ [(href, subTree)])" by simp
    from Cons.IH(4) [OF expand(1-5) this] show ?thesis by simp
  qed
qed

text \<open>
  Every sub tree of the tree of a run is the tree of a page that was fetched, and lists
  the links of that page.
\<close>

lemma lists_page_links_mono:
  "lists_page_links L W pages u t \<Longrightarrow> set pages \<subseteq> set pages' \<Longrightarrow> lists_page_links L W pages' u t"
proof (induction t arbitrary: u)
  case NilTree
  then show ?case by simp
next
  case (Tree entries)
  from Tree.prems have ex: "list_ex (\<lambda>p. snd p = u \<and> page_links L W (fst p) u = Inr (map fst entries)) pages'"
    by (auto simp: list_ex_iff)
  have "list_all (\<lambda>e. lists_page_links L W pages' (fst e) (snd e)) entries"
    unfolding list_all_iff
  proof
    fix e assume mem: "e \<in> set entries"
    have "snd e \<in> Basic_BNFs.snds e" by (cases e) simp
    moreover from Tree.prems(1) mem have "lists_page_links L W pages (fst e) (snd e)"
      by (simp add: list_all_iff)
    ultimately show "lists_page_links L W pages' (fst e) (snd e)"
      using Tree.IH [OF mem] Tree.prems(2) by blast
  qed
  with ex show ?case by simp
qed

lemma crawl_lists_page_links:
  "crawl L W c pageURL depth s = (Inr t, s') \<Longrightarrow>
     \<exists>new. fetched s' = fetched s @ new \<and> clock s' = clock s + length new
       \<and> lists_page_links L W (List.enumerate (clock s) (map fst new)) pageURL t"
  "crawl_links L W c depth hrefs tree s = (Inr t, s') \<Longrightarrow>
     \<exists>new entries. fetched s' = fetched s @ new \<and> clock s' = clock s + length new
       \<and> t = Tree (tree @ entries) \<and> map fst entries = hrefs
       \<and> list_all (\<lambda>e. lists_page_links L W (List.enumerate (clock s) (map fst new)) (fst e) (snd e)) entries"
proof (induction pageURL depth s and depth hrefs tree s arbitrary: t s' and t s'
    rule: crawl_induct [where L = L and W = W and c = c])
  case (crawl pageURL depth s)
  from crawl.prems show ?case
  proof (cases rule: crawl_cases)
    case (links page hrefs)
    from links(1-3) have pl: "page_links L W (clock s) pageURL = Inr hrefs" by (simp add: page_links_def)
    from crawl.IH [OF links] obtain new entries where new:
      "fetched s' = fetched s @ (pageURL, depth) # new" "clock s' = Suc (clock s) + length new"
      "t = Tree entries" "map fst entries = hrefs"
      "list_all (\<lambda>e. lists_page_links L W (List.enumerate (Suc (clock s)) (map fst new)) (fst e) (snd e)) entries"
      by auto
    let ?pages = "List.enumerate (clock s) (map fst ((pageURL, depth) # new))"
    have pages: "?pages = (clock s, pageURL) # List.enumerate (Suc (clock s)) (map fst new)" by simp
    have "list_all (\<lambda>e. lists_page_links L W ?pages (fst e) (snd e)) entries"
      unfolding list_all_iff
    proof
      fix e assume "e \<in> set entries"
      with new(5) have "lists_page_links L W (List.enumerate (Suc (clock s)) (map fst new)) (fst e) (snd e)"
        by (simp add: list_all_iff)
      then show "lists_page_links L W ?pages (fst e) (snd e)"
        by (rule lists_page_links_mono) (auto simp: pages)
    qed
    with pl new(3,4) have "lists_page_links L W ?pages pageURL t" by (simp add: pages)
    with new(1,2) show ?thesis by (intro exI [of _ "(pageURL, depth) # new"]) simp
  qed auto
next
  case (Nil depth tree s)
  then show ?case by (simp add: crawl_links.simps)
next
  case (Cons depth href hrefs tree s)
  from Cons.prems show ?case
  proof (cases rule: crawl_links_cases)
    case panic
    then show ?thesis by simp
  next
    case (seen v)
    from Cons.IH(1) [OF seen] obtain new entries where
      "fetched s' = fetched s @ new" "clock s' = clock s + length new"
      "t = Tree ((tree @ [(href, NilTree)]) @ entries)" "map fst entries = hrefs"
      "list_all (\<lambda>e. lists_page_links L W (List.enumerate (clock s) (map fst new)) (fst e) (snd e)) entries"
      by auto
    then show ?thesis
      by (intro exI [of _ new] exI [of _ "(href, NilTree) # entries"]) simp
  next
    case (bound v)
    from Cons.IH(2) [OF bound] obtain new entries where
      "fetched s' = fetched s @ new" "clock s' = clock s + length new"
      "t = Tree ((tree @ [(href, NilTree)]) @ entries)" "map fst entries = hrefs"
      "list_all (\<lambda>e. lists_page_links L W (List.enumerate (clock s) (map fst new)) (fst e) (snd e)) entries"
      by auto
    then show ?thesis
      by (intro exI [of _ new] exI [of _ "(href, NilTree) # entries"]) simp
  next
    case (fail v f)
    then show ?thesis by simp
  next
    case (expand v subTree s1)
    from Cons.IH(3) [OF expand(1-4)] obtain new1 where n1: "fetched s1 = fetched s @ new1"
      "clock s1 = clock s + length new1"
      "lists_page_links L W (List.enumerate (clock s) (map fst new1)) href subTree"
      by auto
    from Cons.IH(4) [OF expand(1-5)] obtain new2 entries where n2: "fetched s' = fetched s1 @ new2"
      "clock s' = clock s1 + length new2"
      "t = Tree ((tree @ [(href, subTree)]) @ entries)" "map fst entries = hrefs"
      "list_all (\<lambda>e. lists_page_links L W (List.enumerate (clock s1) (map fst new2)) (fst e) (snd e)) entries"
      by auto
    let ?pages = "List.enumerate (clock s) (map fst new1 @ map fst new2)"
    have pages: "?pages = List.enumerate (clock s) (map fst new1) @ List.enumerate (clock s1) (map fst new2)"
      using n1(2) by (simp add: enumerate_append_eq)
    from n1(3) have sub: "lists_page_links L W ?pages href subTree"
      by (rule lists_page_links_mono) (auto simp: pages)
    have "list_all (\<lambda>e. lists_page_links L W ?pages (fst e) (snd e)) entries"
      unfolding list_all_iff
    proof
      fix e assume "e \<in> set entries"
      with n2(5) have "lists_page_links L W (List.enumerate (clock s1) (map fst new2)) (fst e) (snd e)"
        by (simp add: list_all_iff)
      then show "lists_page_links L W ?pages (fst e) (snd e)"
        by (rule lists_page_links_mono) (auto simp: pages)
    qed
    with sub n1(1,2) n2(1-4) show ?thesis
      by (intro exI [of _ "new1 @ new2"] exI [of _ "(href, subTree) # entries"]) simp
  qed
qed

lemma first_of_each_key_once:
  "find (\<lambda>v. withoutScheme L v = withoutScheme L u) us = Some first \<Longrightarrow> withoutScheme L u \<notin> seen \<Longrightarrow>
     filter (\<lambda>v. withoutScheme L v = withoutScheme L u) (first_of_each_key L us seen) = [first]"
proof (induction us arbitrary: seen)
  case Nil
  then show ?case by simp
next
  case (Cons a us)
  show ?case
  proof (cases "withoutScheme L a = withoutScheme L u")
    case True
    with Cons.prems have first: "first = a" and unseen: "withoutScheme L a \<notin> seen" by auto
    have "filter (\<lambda>v. withoutScheme L v = withoutScheme L u)
            (first_of_each_key L us (insert (withoutScheme L a) seen)) = []"
      using first_of_each_key_unseen [of _ L us "insert (withoutScheme L a) seen"] True
      by (auto simp: filter_empty_conv)
    with True first unseen show ?thesis by simp
  next
    case False
    with Cons.prems have f: "find (\<lambda>v. withoutScheme L v = withoutScheme L u) us = Some first" by simp
    from False Cons.prems(2) have "withoutScheme L u \<notin> insert (withoutScheme L a) seen" by auto
    from Cons.IH [OF f this] Cons.IH [OF f Cons.prems(2)] False show ?thesis by simp
  qed
qed

text \<open>
  C8, as amended. In the tree a run of the later crawler returns, every node lists the
  links that were extracted from its own page, all of them, and their identity keys
  differ pairwise. The extractor returns, for every identity key among the resolved
  links of a page, exactly one link, the first of that key on the page: where
  \<^verbatim>\<open>http://h/x\<close> comes before \<^verbatim>\<open>https://h/x\<close> on a page, the node of that page shows the
  \<^verbatim>\<open>http\<close> form once and the other form not at all. Across pages nothing is taken
  out: a page that links to \<^verbatim>\<open>https://h/x\<close> lists it, whatever was found on other pages
  before. In the earlier crawler, \<^verbatim>\<open>collectResults\<close> likewise stores the link of every
  result it receives.
\<close>

theorem first_scheme_wins_on_page:
  "(Run L W c s = (Inr t, s') \<longrightarrow>
      distinct_keys L t
      \<and> (\<exists>new. fetched s' = fetched s @ new
            \<and> lists_page_links L W (List.enumerate (clock s) (map fst new)) (root c) t))
   \<and> (html_Parse W page = Inr doc \<and> uniqueLinksInPage L W page pageURL = Inr links \<and> u \<in> set links
        \<longrightarrow> find (\<lambda>v. withoutScheme L v = withoutScheme L u) (candidates L pageURL doc) = Some u)
   \<and> (html_Parse W page = Inr doc \<and> uniqueLinksInPage L W page pageURL = Inr links
        \<and> find (\<lambda>v. withoutScheme L v = withoutScheme L u') (candidates L pageURL doc) = Some first
        \<longrightarrow> filter (\<lambda>v. withoutScheme L v = withoutScheme L u') links = [first])
   \<and> (collectResults combined = Inr lt
        \<longrightarrow> (\<exists>entries. lt = LinkTree entries \<and> fst ` set entries = res_link ` set combined))"
proof (intro conjI impI)
  assume "Run L W c s = (Inr t, s')"
  then obtain v where run: "crawl L W c (root c) 0 (s\<lparr>visited := v\<rparr>) = (Inr t, s')"
    by (auto simp: Run_def split: option.splits)
  then show "distinct_keys L t" by (rule crawl_links_subtrees(1))
  from crawl_lists_page_links(1) [OF run]
  show "\<exists>new. fetched s' = fetched s @ new
            \<and> lists_page_links L W (List.enumerate (clock s) (map fst new)) (root c) t"
    by auto
next
  assume a: "html_Parse W page = Inr doc \<and> uniqueLinksInPage L W page pageURL = Inr links \<and> u \<in> set links"
  then have doc: "html_Parse W page = Inr doc" by simp
  from a uniqueLinksInPage_candidates [OF doc, of L pageURL]
  have "u \<in> set (first_of_each_key L (candidates L pageURL doc) {})" by (auto split: if_splits)
  then show "find (\<lambda>v. withoutScheme L v = withoutScheme L u) (candidates L pageURL doc) = Some u"
    by (rule first_of_each_key_first)
next
  assume a: "html_Parse W page = Inr doc \<and> uniqueLinksInPage L W page pageURL = Inr links
        \<and> find (\<lambda>v. withoutScheme L v = withoutScheme L u') (candidates L pageURL doc) = Some first"
  then have doc: "html_Parse W page = Inr doc" by simp
  from a uniqueLinksInPage_candidates [OF doc, of L pageURL]
  have links: "links = first_of_each_key L (candidates L pageURL doc) {}" by (auto split: if_splits)
  from a have "find (\<lambda>v. withoutScheme L v = withoutScheme L u') (candidates L pageURL doc) = Some first"
    by simp
  from first_of_each_key_once [OF this, of "{}"] links
  show "filter (\<lambda>v. withoutScheme L v = withoutScheme L u') links = [first]" by simp
next
  assume "collectResults combined = Inr lt"
  then show "\<exists>entries. lt = LinkTree entries \<and> fst ` set entries = res_link ` set combined"
    by (rule collectResults_keys)
qed

theorem first_scheme_wins_on_page_witness:
  "fst (Run plain_url (site_world example_site) (example_crawler 2) fresh) = Inr example_tree
   \<and> distinct_keys plain_url example_tree
   \<and> fetched (snd (Run plain_url (site_world example_site) (example_crawler 2) fresh))
       = [(url_of ''http'' ''/entry'', 0), (url_of ''http'' ''/a'', 1), (url_of ''http'' ''/b'', 1)]
   \<and> lists_page_links plain_url (site_world example_site)
        [(0, url_of ''http'' ''/entry''), (1, url_of ''http'' ''/a''), (2, url_of ''http'' ''/b'')]
        (url_of ''http'' ''/entry'') example_tree
   \<and> page_links plain_url (site_world example_site) 2 (url_of ''http'' ''/b'') = Inr [url_xs]
   \<and> candidates plain_url (url_of ''http'' ''/dir/page'') example_doc
       = [url_of ''http'' ''/dir/foo'', url_of ''http'' ''/dir/foo'', url_of ''http'' ''/bar'', url_of ''https'' ''/bar'']
   \<and> uniqueLinksInPage plain_url (page_world example_doc) ''http://h/dir/page'' (url_of ''http'' ''/dir/page'')
       = Inr [url_of ''http'' ''/dir/foo'', url_of ''http'' ''/bar'']
   \<and> find (\<lambda>v. withoutScheme plain_url v = withoutScheme plain_url (url_of ''http'' ''/bar''))
        (candidates plain_url (url_of ''http'' ''/dir/page'') example_doc) = Some (url_of ''http'' ''/bar'')
   \<and> filter (\<lambda>v. withoutScheme plain_url v = withoutScheme plain_url (url_of ''https'' ''/bar''))
        [url_of ''http'' ''/dir/foo'', url_of ''http'' ''/bar''] = [url_of ''http'' ''/bar'']
   \<and> (\<exists>entries. LinkTree [(''http://h/x'', NilLinkTree)] = LinkTree entries
         \<and> fst ` set entries = res_link ` set (leaf_results plain_url [url_x]))"
proof -
  let ?W = "page_world example_doc" and ?p = "url_of ''http'' ''/dir/page''"
  let ?S = "site_world example_site"
  let ?run = "Run plain_url ?S (example_crawler 2) fresh"
  let ?links = "[url_of ''http'' ''/dir/foo'', url_of ''http'' ''/bar'']"
  have tree: "fst ?run = Inr example_tree" by code_simp
  then have run: "?run = (Inr example_tree, snd ?run)" by (simp add: prod_eq_iff)
  have trace: "fetched (snd ?run)
       = [(url_of ''http'' ''/entry'', 0), (url_of ''http'' ''/a'', 1), (url_of ''http'' ''/b'', 1)]"
    by code_simp
  have start: "fetched fresh = [] \<and> clock fresh = 0 \<and> root (example_crawler 2) = url_of ''http'' ''/entry''"
    by code_simp
  have b: "page_links plain_url ?S 2 (url_of ''http'' ''/b'') = Inr [url_xs]" by code_simp
  have page: "html_Parse ?W ''http://h/dir/page'' = Inr example_doc
      \<and> uniqueLinksInPage plain_url ?W ''http://h/dir/page'' ?p = Inr ?links
      \<and> url_of ''http'' ''/bar'' \<in> set ?links"
    by code_simp
  have page': "html_Parse ?W ''http://h/dir/page'' = Inr example_doc
      \<and> uniqueLinksInPage plain_url ?W ''http://h/dir/page'' ?p = Inr ?links
      \<and> find (\<lambda>v. withoutScheme plain_url v = withoutScheme plain_url (url_of ''https'' ''/bar''))
          (candidates plain_url ?p example_doc) = Some (url_of ''http'' ''/bar'')"
    by code_simp
  have cands: "candidates plain_url ?p example_doc
       = [url_of ''http'' ''/dir/foo'', url_of ''http'' ''/dir/foo'', url_of ''http'' ''/bar'', url_of ''https'' ''/bar'']"
    by code_simp
  have old: "collectResults (leaf_results plain_url [url_x]) = Inr (LinkTree [(''http://h/x'', NilLinkTree)])"
    by code_simp
  note T = first_scheme_wins_on_page [where L = plain_url and W = ?W and page = "''http://h/dir/page''"
      and doc = example_doc and pageURL = ?p and links = ?links and u = "url_of ''http'' ''/bar''"
      and u' = "url_of ''https'' ''/bar''" and first = "url_of ''http'' ''/bar''"
      and combined = "leaf_results plain_url [url_x]" and lt = "LinkTree [(''http://h/x'', NilLinkTree)]"]
  from first_scheme_wins_on_page [where L = plain_url and W = ?S and c = "example_crawler 2" and s = fresh
      and t = example_tree and s' = "snd ?run", THEN conjunct1, THEN mp, OF run]
  obtain new where 1: "distinct_keys plain_url example_tree"
    and new: "fetched (snd ?run) = fetched fresh @ new"
    and nodes: "lists_page_links plain_url ?S (List.enumerate (clock fresh) (map fst new))
        (root (example_crawler 2)) example_tree"
    by blast
  from new trace start
  have "new = [(url_of ''http'' ''/entry'', 0), (url_of ''http'' ''/a'', 1), (url_of ''http'' ''/b'', 1)]"
    by simp
  with nodes start
  have 2: "lists_page_links plain_url ?S
        [(0, url_of ''http'' ''/entry''), (1, url_of ''http'' ''/a''), (2, url_of ''http'' ''/b'')]
        (url_of ''http'' ''/entry'') example_tree"
    by (simp add: numeral_2_eq_2)
  from T [THEN conjunct2, THEN conjunct1, THEN mp, OF page]
  have 3: "find (\<lambda>v. withoutScheme plain_url v = withoutScheme plain_url (url_of ''http'' ''/bar''))
        (candidates plain_url ?p example_doc) = Some (url_of ''http'' ''/bar'')" .
  from T [THEN conjunct2, THEN conjunct2, THEN conjunct1, THEN mp, OF page']
  have 4: "filter (\<lambda>v. withoutScheme plain_url v = withoutScheme plain_url (url_of ''https'' ''/bar''))
        ?links = [url_of ''http'' ''/bar'']" .
  from T [THEN conjunct2, THEN conjunct2, THEN conjunct2, THEN mp, OF old]
  have 5: "\<exists>entries. LinkTree [(''http://h/x'', NilLinkTree)] = LinkTree entries
         \<and> fst ` set entries = res_link ` set (leaf_results plain_url [url_x])" .
  from page have 6: "uniqueLinksInPage plain_url ?W ''http://h/dir/page'' ?p = Inr ?links" by simp
  from tree 1 trace 2 b cands 6 3 4 5 show ?thesis by blast
qed

text \<open>
  The claim as it is written, across pages, fails: page \<^verbatim>\<open>/a\<close>, fetched first, links to
  \<^verbatim>\<open>http://h/x\<close> and page \<^verbatim>\<open>/b\<close>, fetched after it, to \<^verbatim>\<open>https://h/x\<close>; the tree printed
  shows both forms.
\<close>

theorem first_scheme_wins_counterexample:
  "map (\<lambda>p. url_String plain_url (fst p))
      (fetched (snd (Run plain_url (site_world example_site) (example_crawler 2) fresh)))
     = [''http://h/entry'', ''http://h/a'', ''http://h/b'']
   \<and> fst (Run plain_url (site_world example_site) (example_crawler 2) fresh)
     = Inr (Tree [(url_of ''http'' ''/a'', Tree [(url_x, NilTree)]),
                  (url_of ''http'' ''/b'', Tree [(url_xs, NilTree)])])
   \<and> URLTree_String plain_url
        (Tree [(url_of ''http'' ''/a'', Tree [(url_x, NilTree)]),
               (url_of ''http'' ''/b'', Tree [(url_xs, NilTree)])])
     = Some ''http://h/a\<newline>  http://h/x\<newline>http://h/b\<newline>  https://h/x\<newline>''"
  by code_simp

section \<open>Printing is sorted and does not depend on the order of the entries\<close>

lemma URLTree_string_empty:
  "len t = 0 \<Longrightarrow> URLTree_string L t n = Some []"
  by (cases t) (auto simp: sort_IgnoringScheme_def)

lemma write_links_Cons:
  "write_links L (e # links) n =
     (case URLTree_string L (snd e) (n + 1) of
        None \<Rightarrow> None
      | Some below \<Rightarrow>
          (case write_links L links n of
             None \<Rightarrow> None
           | Some rest \<Rightarrow>
               Some (concat (replicate n ''  '') @ url_String L (fst e) @ ''\<newline>'' @ below @ rest)))"
  by (cases e) (auto simp: URLTree_string_empty split: option.splits)

lemma sort_IgnoringScheme_keys:
  "list_all (\<lambda>e. withoutScheme L (fst e) \<noteq> None) entries \<Longrightarrow>
     sort_IgnoringScheme L entries = Some (sort_key (\<lambda>e. withoutScheme L (fst e)) entries)"
proof -
  assume keys: "list_all (\<lambda>e. withoutScheme L (fst e) \<noteq> None) entries"
  have short: "length entries \<le> 1 \<Longrightarrow> sort_key (\<lambda>e. withoutScheme L (fst e)) entries = entries"
    by (cases entries) auto
  from keys have "\<not> list_ex (\<lambda>e. withoutScheme L (fst e) = None) entries"
    by (auto simp: list_all_iff list_ex_iff)
  with short show ?thesis by (auto simp: sort_IgnoringScheme_def)
qed

lemma write_links_same:
  "list_all2 (\<lambda>e e'. fst e = fst e' \<and> URLTree_string L (snd e) (n + 1) = URLTree_string L (snd e') (n + 1))
      links links' \<Longrightarrow> write_links L links n = write_links L links' n"
proof (induction links links' rule: list_all2_induct)
  case Nil
  then show ?case by simp
next
  case (Cons e links e' links')
  then have "fst e = fst e'"
    "URLTree_string L (snd e) (n + 1) = URLTree_string L (snd e') (n + 1)"
    "write_links L links n = write_links L links' n"
    by auto
  then show ?case by (simp only: write_links_Cons)
qed

lemma sorted_keys_unique:
  fixes key :: "'a \<Rightarrow> 'k::linorder"
  assumes "mset (map fst es) = mset (map fst es')" and "distinct (map (\<lambda>e. key (fst e)) es)"
  shows "map fst (sort_key (\<lambda>e. key (fst e)) es) = map fst (sort_key (\<lambda>e. key (fst e)) es')"
proof -
  let ?k = "\<lambda>e. key (fst e)"
  let ?xs = "sort_key ?k es" and ?xs' = "sort_key ?k es'"
  from assms(1) have "image_mset key (mset (map fst es)) = image_mset key (mset (map fst es'))"
    by (rule arg_cong)
  then have keys: "mset (map ?k es) = mset (map ?k es')"
    by (simp add: multiset.map_comp comp_def)
  have "sort (map ?k es') = map ?k ?xs"
  proof (rule properties_for_sort)
    show "mset (map ?k ?xs) = mset (map ?k es')" using keys by simp
    show "sorted (map ?k ?xs)" by (rule sorted_sort_key)
  qed
  moreover have "sort (map ?k es') = map ?k ?xs'"
  proof (rule properties_for_sort)
    show "mset (map ?k ?xs') = mset (map ?k es')" by simp
    show "sorted (map ?k ?xs')" by (rule sorted_sort_key)
  qed
  ultimately have "map ?k ?xs = map ?k ?xs'" by simp
  then have eq: "map key (map fst ?xs) = map key (map fst ?xs')" by (simp add: comp_def)
  from assms(2) have "inj_on ?k (set es)" by (simp add: distinct_map)
  then have inj: "inj_on key (fst ` set es)" by (auto simp: inj_on_def)
  from assms(1) have "set_mset (mset (map fst es')) = set_mset (mset (map fst es))" by simp
  then have "fst ` set es' = fst ` set es" by simp
  with inj have "inj_on key (set (map fst ?xs) \<union> set (map fst ?xs'))" by simp
  with eq show ?thesis by (simp only: inj_on_map_eq_map)
qed

lemma same_map_Tree_E:
  assumes "same_map (Tree entries) t'"
  obtains entries' where "t' = Tree entries'" "mset (map fst entries) = mset (map fst entries')"
    "\<And>e e'. e \<in> set entries \<Longrightarrow> e' \<in> set entries' \<Longrightarrow> fst e = fst e' \<Longrightarrow> same_map (snd e) (snd e')"
  using assms by (cases rule: same_map.cases) auto

lemma same_map_string:
  "distinct_keys L t \<Longrightarrow> same_map t t' \<Longrightarrow> URLTree_string L t n = URLTree_string L t' n"
proof (induction t arbitrary: t' n)
  case NilTree
  then show ?case by (auto elim: same_map.cases)
next
  case (Tree entries)
  let ?key = "\<lambda>e. withoutScheme L (fst e)"
  from Tree.prems(1) have keys: "list_all (\<lambda>e. ?key e \<noteq> None) entries"
    and dist: "distinct (map ?key entries)"
    and dsub: "\<And>e. e \<in> set entries \<Longrightarrow> distinct_keys L (snd e)"
    by (auto simp: list_all_iff)
  from Tree.prems(2) show ?case
  proof (rule same_map_Tree_E)
    fix entries'
    assume t': "t' = Tree entries'"
      and urls: "mset (map fst entries) = mset (map fst entries')"
      and subs: "\<And>e e'. e \<in> set entries \<Longrightarrow> e' \<in> set entries' \<Longrightarrow> fst e = fst e' \<Longrightarrow> same_map (snd e) (snd e')"
    from urls have "set_mset (mset (map fst entries')) = set_mset (mset (map fst entries))" by simp
    then have "fst ` set entries' = fst ` set entries" by simp
    with keys have keys': "list_all (\<lambda>e. ?key e \<noteq> None) entries'"
      unfolding list_all_iff by (metis imageE imageI)
    let ?xs = "sort_key ?key entries" and ?xs' = "sort_key ?key entries'"
    have firsts: "map fst ?xs = map fst ?xs'"
      using urls dist by (rule sorted_keys_unique)
    from arg_cong [OF this, of length] have len: "length ?xs = length ?xs'" by simp
    have "list_all2 (\<lambda>e e'. fst e = fst e' \<and> URLTree_string L (snd e) (n + 1) = URLTree_string L (snd e') (n + 1))
            ?xs ?xs'"
    proof (rule list_all2_all_nthI [OF len])
      fix i assume i: "i < length ?xs"
      with len have i': "i < length ?xs'" by simp
      from nth_mem [OF i] have mem: "?xs ! i \<in> set entries" by simp
      from nth_mem [OF i'] have mem': "?xs' ! i \<in> set entries'" by simp
      from arg_cong [OF firsts, of "\<lambda>l. l ! i"] i i' have eq: "fst (?xs ! i) = fst (?xs' ! i)" by simp
      have "snd (?xs ! i) \<in> Basic_BNFs.snds (?xs ! i)" by (cases "?xs ! i") simp
      from Tree.IH [OF mem this dsub [OF mem] subs [OF mem mem' eq]] eq
      show "fst (?xs ! i) = fst (?xs' ! i)
          \<and> URLTree_string L (snd (?xs ! i)) (n + 1) = URLTree_string L (snd (?xs' ! i)) (n + 1)"
        by simp
    qed
    then have "write_links L ?xs n = write_links L ?xs' n" by (rule write_links_same)
    with sort_IgnoringScheme_keys [OF keys] sort_IgnoringScheme_keys [OF keys'] t'
    show ?thesis by simp
  qed
qed

lemma write_links_layout:
  "write_links L links n = Some out \<Longrightarrow>
     \<exists>belows. list_all2 (\<lambda>e below. URLTree_string L (snd e) (n + 1) = Some below) links belows
       \<and> out = concat (map2 (\<lambda>e below. concat (replicate n ''  '') @ url_String L (fst e) @ ''\<newline>'' @ below)
                        links belows)"
proof (induction links arbitrary: out)
  case Nil
  then show ?case by simp
next
  case (Cons e links)
  from Cons.prems obtain below rest where parts: "URLTree_string L (snd e) (n + 1) = Some below"
    "write_links L links n = Some rest"
    "out = concat (replicate n ''  '') @ url_String L (fst e) @ ''\<newline>'' @ below @ rest"
    by (auto simp: write_links_Cons simp del: write_links.simps split: option.splits)
  from Cons.IH [OF parts(2)] obtain belows where
    belows: "list_all2 (\<lambda>e below. URLTree_string L (snd e) (n + 1) = Some below) links belows"
    "rest = concat (map2 (\<lambda>e below. concat (replicate n ''  '') @ url_String L (fst e) @ ''\<newline>'' @ below)
                        links belows)"
    by blast
  with parts show ?case by (intro exI [of _ "below # belows"]) simp
qed

lemma write_links_total:
  "list_all (\<lambda>e. URLTree_string L (snd e) (n + 1) \<noteq> None) links \<Longrightarrow> write_links L links n \<noteq> None"
  by (induction links) (auto simp: write_links_Cons simp del: write_links.simps(2))

lemma distinct_keys_string:
  "distinct_keys L t \<Longrightarrow> URLTree_string L t n \<noteq> None"
proof (induction t arbitrary: n)
  case NilTree
  then show ?case by simp
next
  case (Tree entries)
  let ?key = "\<lambda>e. withoutScheme L (fst e)"
  from Tree.prems have keys: "list_all (\<lambda>e. ?key e \<noteq> None) entries"
    and dsub: "\<And>e. e \<in> set entries \<Longrightarrow> distinct_keys L (snd e)"
    by (auto simp: list_all_iff)
  have "list_all (\<lambda>e. URLTree_string L (snd e) (n + 1) \<noteq> None) (sort_key ?key entries)"
    unfolding list_all_iff
  proof
    fix e assume "e \<in> set (sort_key ?key entries)"
    then have mem: "e \<in> set entries" by simp
    have "snd e \<in> Basic_BNFs.snds e" by (cases e) simp
    from Tree.IH [OF mem this dsub [OF mem]] show "URLTree_string L (snd e) (n + 1) \<noteq> None" .
  qed
  from write_links_total [OF this] sort_IgnoringScheme_keys [OF keys] show ?case by simp
qed

lemma sort_IgnoringScheme_sorted:
  "sort_IgnoringScheme L entries = Some links \<Longrightarrow> sorted (map (\<lambda>e. withoutScheme L (fst e)) links)"
proof -
  assume a: "sort_IgnoringScheme L entries = Some links"
  have "length entries \<le> 1 \<Longrightarrow> sorted (map (\<lambda>e. withoutScheme L (fst e)) entries)"
    by (cases entries) auto
  with a show ?thesis by (auto simp: sort_IgnoringScheme_def split: if_splits)
qed

text \<open>
  Printing a \<^verbatim>\<open>LinkTree\<close> does not depend on the order of the entries either, and its
  lines are in the order of the pages.
\<close>

lemma same_LinkTree_len:
  "same_LinkTree t t' \<Longrightarrow> len_LinkTree t = len_LinkTree t'"
proof (induction rule: same_LinkTree.induct)
  case same_NilLinkTree
  then show ?case by simp
next
  case (same_LinkTree entries entries')
  from mset_eq_length [OF same_LinkTree(1)] show ?case by simp
qed

lemma same_LinkTree_E:
  assumes "same_LinkTree (LinkTree entries) t'"
  obtains entries' where "t' = LinkTree entries'" "mset (map fst entries) = mset (map fst entries')"
    "\<And>e e'. e \<in> set entries \<Longrightarrow> e' \<in> set entries' \<Longrightarrow> fst e = fst e' \<Longrightarrow> same_LinkTree (snd e) (snd e')"
  using assms by (cases rule: same_LinkTree.cases) auto

lemma LinkTree_line_cong:
  assumes "\<And>page. page \<in> set pages \<Longrightarrow> f page = g page"
  shows "concat (map f pages) = concat (map g pages)"
  using assms by (induction pages) auto

lemma same_LinkTree_string:
  "distinct_pages t \<Longrightarrow> same_LinkTree t t' \<Longrightarrow> LinkTree_string t n = LinkTree_string t' n"
proof (induction t arbitrary: t' n)
  case NilLinkTree
  then show ?case by (auto elim: same_LinkTree.cases)
next
  case (LinkTree entries)
  from LinkTree.prems(1) have dist: "distinct (map fst entries)"
    and dsub: "\<And>e. e \<in> set entries \<Longrightarrow> distinct_pages (snd e)"
    by (auto simp: list_all_iff)
  from LinkTree.prems(2) show ?case
  proof (rule same_LinkTree_E)
    fix entries'
    assume t': "t' = LinkTree entries'"
      and pages: "mset (map fst entries) = mset (map fst entries')"
      and subs: "\<And>e e'. e \<in> set entries \<Longrightarrow> e' \<in> set entries' \<Longrightarrow> fst e = fst e' \<Longrightarrow> same_LinkTree (snd e) (snd e')"
    from mset_eq_imp_distinct_iff [OF pages] dist have dist': "distinct (map fst entries')" by blast
    have sorted: "sort (map fst entries') = sort (map fst entries)"
    proof (rule properties_for_sort)
      show "mset (sort (map fst entries)) = mset (map fst entries')" using pages by simp
      show "sorted (sort (map fst entries))" by simp
    qed
    from pages have "set_mset (mset (map fst entries')) = set_mset (mset (map fst entries))" by simp
    then have keys: "fst ` set entries' = fst ` set entries" by simp
    let ?line = "\<lambda>es page. concat (replicate n ''  '') @ ''- '' @ page
         @ (case map_of es page of
              None \<Rightarrow> ''\<newline>''
            | Some sub \<Rightarrow>
                if len_LinkTree sub \<noteq> 0 then '':\<newline>'' @ LinkTree_string sub (n + 1)
                else ''\<newline>'')"
    have "concat (map (?line entries) (sort (map fst entries)))
        = concat (map (?line entries') (sort (map fst entries)))"
    proof (rule LinkTree_line_cong)
      fix page assume "page \<in> set (sort (map fst entries))"
      then have "page \<in> fst ` set entries" by simp
      then obtain sub where mem: "(page, sub) \<in> set entries" by auto
      from \<open>page \<in> fst ` set entries\<close> keys have "page \<in> fst ` set entries'" by simp
      then obtain sub' where mem': "(page, sub') \<in> set entries'" by auto
      from map_of_is_SomeI [OF dist mem] have look: "map_of entries page = Some sub" .
      from map_of_is_SomeI [OF dist' mem'] have look': "map_of entries' page = Some sub'" .
      from subs [OF mem mem'] have same: "same_LinkTree sub sub'" by simp
      have "sub \<in> Basic_BNFs.snds (page, sub)" by simp
      from LinkTree.IH [OF mem this, of sub' "n + 1"] dsub [OF mem] same
      have "LinkTree_string sub (n + 1) = LinkTree_string sub' (n + 1)" by simp
      with look look' same_LinkTree_len [OF same]
      show "?line entries page = ?line entries' page" by simp
    qed
    with sorted t' show ?thesis by simp
  qed
qed

lemma LinkTree_string_layout:
  assumes "distinct (map fst entries)"
  shows "LinkTree_string (LinkTree entries) n =
     concat (map (\<lambda>e. concat (replicate n ''  '') @ ''- '' @ fst e
                    @ (if len_LinkTree (snd e) \<noteq> 0 then '':\<newline>'' @ LinkTree_string (snd e) (n + 1)
                       else ''\<newline>''))
               (sort_key fst entries))"
proof -
  let ?line = "\<lambda>page. concat (replicate n ''  '') @ ''- '' @ page
         @ (case map_of entries page of
              None \<Rightarrow> ''\<newline>''
            | Some sub \<Rightarrow>
                if len_LinkTree sub \<noteq> 0 then '':\<newline>'' @ LinkTree_string sub (n + 1)
                else ''\<newline>'')"
  have pages: "sort (map fst entries) = map fst (sort_key fst entries)"
    by (rule properties_for_sort) simp_all
  have "LinkTree_string (LinkTree entries) n = concat (map ?line (map fst (sort_key fst entries)))"
    by (simp only: LinkTree_string.simps pages)
  also have "\<dots> = concat (map (\<lambda>e. ?line (fst e)) (sort_key fst entries))"
    by (simp only: map_map comp_def)
  also have "\<dots> = concat (map (\<lambda>e. concat (replicate n ''  '') @ ''- '' @ fst e
                    @ (if len_LinkTree (snd e) \<noteq> 0 then '':\<newline>'' @ LinkTree_string (snd e) (n + 1)
                       else ''\<newline>''))
               (sort_key fst entries))"
  proof (rule LinkTree_line_cong)
    fix e assume "e \<in> set (sort_key fst entries)"
    then have "e \<in> set entries" by simp
    with assms have "map_of entries (fst e) = Some (snd e)" by simp
    then show "?line (fst e) = concat (replicate n ''  '') @ ''- '' @ fst e
                    @ (if len_LinkTree (snd e) \<noteq> 0 then '':\<newline>'' @ LinkTree_string (snd e) (n + 1)
                       else ''\<newline>'')"
      by simp
  qed
  finally show ?thesis .
qed

text \<open>
  C7, as amended. For every \<^verbatim>\<open>URLTree\<close> whose sibling keys differ pairwise at every
  level (the invariant of the specification; every tree the later crawler returns has
  it), printing does not panic; any other list of the same map prints the same text;
  and the text of a node is, for its entries in strictly ascending order of their
  identity keys (the byte-wise order of the strings \<^verbatim>\<open>withoutScheme\<close> gives), the line of
  the entry, which is two spaces for every level of indentation, the URL and a newline,
  followed by the text of its sub tree one level deeper. For every \<^verbatim>\<open>LinkTree\<close> (a map
  at every level), any other list of the same map prints the same text, and the text of
  a node is, for its entries in strictly ascending order of their full strings, scheme
  included, the line of the entry, which is two spaces for every level of indentation,
  a dash, a space and the page, followed by a colon, a newline and the text of the sub
  tree one level deeper where the sub tree has entries, and by a newline otherwise.
\<close>

theorem render_sorted_deterministic:
  assumes "distinct_keys L t" and "distinct_pages lt"
  shows "(\<exists>out. URLTree_string L t n = Some out)
    \<and> (\<forall>t'. same_map t t' \<longrightarrow> URLTree_string L t' n = URLTree_string L t n)
    \<and> (\<forall>entries out. t = Tree entries \<and> URLTree_string L t n = Some out \<longrightarrow>
         (\<exists>ordered belows. mset ordered = mset entries
            \<and> sorted_wrt (<) (map (\<lambda>e. withoutScheme L (fst e)) ordered)
            \<and> list_all2 (\<lambda>e below. URLTree_string L (snd e) (n + 1) = Some below) ordered belows
            \<and> out = concat (map2 (\<lambda>e below. concat (replicate n ''  '') @ url_String L (fst e)
                                      @ ''\<newline>'' @ below) ordered belows)))
    \<and> (\<forall>lt'. same_LinkTree lt lt' \<longrightarrow> LinkTree_string lt' n = LinkTree_string lt n)
    \<and> (\<forall>pages. lt = LinkTree pages \<longrightarrow>
         (\<exists>ordered. mset ordered = mset pages \<and> sorted_wrt (<) (map fst ordered)
            \<and> LinkTree_string lt n =
                concat (map (\<lambda>e. concat (replicate n ''  '') @ ''- '' @ fst e
                               @ (if len_LinkTree (snd e) \<noteq> 0
                                  then '':\<newline>'' @ LinkTree_string (snd e) (n + 1)
                                  else ''\<newline>''))
                          ordered)))"
proof (intro conjI allI impI)
  from distinct_keys_string [OF assms(1)] show "\<exists>out. URLTree_string L t n = Some out" by auto
next
  fix t' assume "same_map t t'"
  with assms(1) show "URLTree_string L t' n = URLTree_string L t n"
    by (simp add: same_map_string)
next
  fix entries out
  assume a: "t = Tree entries \<and> URLTree_string L t n = Some out"
  then obtain ordered where ordered: "sort_IgnoringScheme L entries = Some ordered"
    "write_links L ordered n = Some out"
    by (auto split: option.splits)
  from ordered(1) have perm: "mset ordered = mset entries" by (rule sort_IgnoringScheme_mset)
  from assms(1) a have d: "distinct (map (\<lambda>e. withoutScheme L (fst e)) entries)" by simp
  from perm have "mset (map (\<lambda>e. withoutScheme L (fst e)) ordered)
      = mset (map (\<lambda>e. withoutScheme L (fst e)) entries)" by simp
  from mset_eq_imp_distinct_iff [OF this] d
  have "distinct (map (\<lambda>e. withoutScheme L (fst e)) ordered)" by blast
  with sort_IgnoringScheme_sorted [OF ordered(1)]
  have "sorted_wrt (<) (map (\<lambda>e. withoutScheme L (fst e)) ordered)"
    by (simp add: strict_sorted_iff)
  with perm write_links_layout [OF ordered(2)]
  show "\<exists>ordered belows. mset ordered = mset entries
            \<and> sorted_wrt (<) (map (\<lambda>e. withoutScheme L (fst e)) ordered)
            \<and> list_all2 (\<lambda>e below. URLTree_string L (snd e) (n + 1) = Some below) ordered belows
            \<and> out = concat (map2 (\<lambda>e below. concat (replicate n ''  '') @ url_String L (fst e)
                                      @ ''\<newline>'' @ below) ordered belows)"
    by blast
next
  fix lt' assume "same_LinkTree lt lt'"
  with assms(2) show "LinkTree_string lt' n = LinkTree_string lt n"
    by (simp add: same_LinkTree_string)
next
  fix pages assume lt: "lt = LinkTree pages"
  with assms(2) have d: "distinct (map fst pages)" by simp
  have perm: "mset (sort_key fst pages) = mset pages" by simp
  then have "mset (map fst (sort_key fst pages)) = mset (map fst pages)" by simp
  from mset_eq_imp_distinct_iff [OF this] d have "distinct (map fst (sort_key fst pages))" by blast
  with sorted_sort_key [of fst pages] have "sorted_wrt (<) (map fst (sort_key fst pages))"
    by (simp add: strict_sorted_iff)
  with perm LinkTree_string_layout [OF d, of n] lt
  show "\<exists>ordered. mset ordered = mset pages \<and> sorted_wrt (<) (map fst ordered)
            \<and> LinkTree_string lt n =
                concat (map (\<lambda>e. concat (replicate n ''  '') @ ''- '' @ fst e
                               @ (if len_LinkTree (snd e) \<noteq> 0
                                  then '':\<newline>'' @ LinkTree_string (snd e) (n + 1)
                                  else ''\<newline>''))
                          ordered)"
    by blast
qed

lemma same_map_refl_leaf: "same_map (Tree [(u, NilTree)]) (Tree [(u, NilTree)])"
  by (rule same_Tree) (auto intro: same_Nil)

lemma same_LinkTree_refl_leaf:
  "same_LinkTree (LinkTree [(page, NilLinkTree)]) (LinkTree [(page, NilLinkTree)])"
  by (rule same_LinkTree) (auto intro: same_NilLinkTree)

theorem render_sorted_deterministic_witness:
  "distinct_keys plain_url sorted_example
   \<and> same_map sorted_example sorted_example'
   \<and> URLTree_string plain_url sorted_example 0 = Some ''https://h/a\<newline>  http://h/x\<newline>http://h/b\<newline>''
   \<and> URLTree_string plain_url sorted_example' 0 = URLTree_string plain_url sorted_example 0
   \<and> (\<exists>ordered belows.
         mset ordered = mset [(url_of ''http'' ''/b'', NilTree), (url_of ''https'' ''/a'', Tree [(url_x, NilTree)])]
         \<and> sorted_wrt (<) (map (\<lambda>e. withoutScheme plain_url (fst e)) ordered)
         \<and> list_all2 (\<lambda>e below. URLTree_string plain_url (snd e) (0 + 1) = Some below) ordered belows
         \<and> ''https://h/a\<newline>  http://h/x\<newline>http://h/b\<newline>''
             = concat (map2 (\<lambda>e below. concat (replicate 0 ''  '') @ url_String plain_url (fst e)
                                      @ ''\<newline>'' @ below) ordered belows))
   \<and> distinct_pages pages_example
   \<and> same_LinkTree pages_example pages_example'
   \<and> LinkTree_string pages_example 0 = ''- http://h/a:\<newline>  - http://h/x\<newline>- http://h/b\<newline>''
   \<and> LinkTree_string pages_example' 0 = LinkTree_string pages_example 0
   \<and> (\<exists>ordered.
         mset ordered = mset [(''http://h/b'', NilLinkTree), (''http://h/a'', LinkTree [(''http://h/x'', NilLinkTree)])]
         \<and> sorted_wrt (<) (map fst ordered)
         \<and> ''- http://h/a:\<newline>  - http://h/x\<newline>- http://h/b\<newline>''
             = concat (map (\<lambda>e. concat (replicate 0 ''  '') @ ''- '' @ fst e
                               @ (if len_LinkTree (snd e) \<noteq> 0
                                  then '':\<newline>'' @ LinkTree_string (snd e) (0 + 1)
                                  else ''\<newline>''))
                          ordered))"
proof -
  have dk: "distinct_keys plain_url sorted_example" by code_simp
  have dp: "distinct_pages pages_example" by code_simp
  have same: "same_map sorted_example sorted_example'"
    unfolding sorted_example_def sorted_example'_def
    by (rule same_Tree) (auto intro: same_Nil same_map_refl_leaf simp: url_of_def zero_URL_def)
  have same_lt: "same_LinkTree pages_example pages_example'"
    unfolding pages_example_def pages_example'_def
    by (rule same_LinkTree) (auto intro: same_NilLinkTree same_LinkTree_refl_leaf)
  have out: "sorted_example = Tree [(url_of ''http'' ''/b'', NilTree), (url_of ''https'' ''/a'', Tree [(url_x, NilTree)])]
      \<and> URLTree_string plain_url sorted_example 0 = Some ''https://h/a\<newline>  http://h/x\<newline>http://h/b\<newline>''"
    by code_simp
  have pages: "pages_example
      = LinkTree [(''http://h/b'', NilLinkTree), (''http://h/a'', LinkTree [(''http://h/x'', NilLinkTree)])]"
    by code_simp
  have printed: "LinkTree_string pages_example 0 = ''- http://h/a:\<newline>  - http://h/x\<newline>- http://h/b\<newline>''"
    by code_simp
  note T = render_sorted_deterministic [OF dk dp, of 0]
  from T [THEN conjunct2, THEN conjunct1, rule_format, OF same]
  have 1: "URLTree_string plain_url sorted_example' 0 = URLTree_string plain_url sorted_example 0" .
  from T [THEN conjunct2, THEN conjunct2, THEN conjunct1, rule_format, OF out]
  have 2: "\<exists>ordered belows.
         mset ordered = mset [(url_of ''http'' ''/b'', NilTree), (url_of ''https'' ''/a'', Tree [(url_x, NilTree)])]
         \<and> sorted_wrt (<) (map (\<lambda>e. withoutScheme plain_url (fst e)) ordered)
         \<and> list_all2 (\<lambda>e below. URLTree_string plain_url (snd e) (0 + 1) = Some below) ordered belows
         \<and> ''https://h/a\<newline>  http://h/x\<newline>http://h/b\<newline>''
             = concat (map2 (\<lambda>e below. concat (replicate 0 ''  '') @ url_String plain_url (fst e)
                                      @ ''\<newline>'' @ below) ordered belows)" .
  from T [THEN conjunct2, THEN conjunct2, THEN conjunct2, THEN conjunct1, rule_format, OF same_lt]
  have 3: "LinkTree_string pages_example' 0 = LinkTree_string pages_example 0" .
  from T [THEN conjunct2, THEN conjunct2, THEN conjunct2, THEN conjunct2, rule_format, OF pages]
  have 4: "\<exists>ordered.
         mset ordered = mset [(''http://h/b'', NilLinkTree), (''http://h/a'', LinkTree [(''http://h/x'', NilLinkTree)])]
         \<and> sorted_wrt (<) (map fst ordered)
         \<and> ''- http://h/a:\<newline>  - http://h/x\<newline>- http://h/b\<newline>''
             = concat (map (\<lambda>e. concat (replicate 0 ''  '') @ ''- '' @ fst e
                               @ (if len_LinkTree (snd e) \<noteq> 0
                                  then '':\<newline>'' @ LinkTree_string (snd e) (0 + 1)
                                  else ''\<newline>''))
                          ordered)"
    unfolding printed .
  from dk same out 1 2 dp same_lt printed 3 4 show ?thesis by blast
qed

text \<open>
  The claim as it is written, sorted by the identity key, fails for \<^verbatim>\<open>LinkTree.string\<close>:
  the earlier crawler, run on an entry page that links to \<^verbatim>\<open>http://b/\<close> and
  \<^verbatim>\<open>https://a/\<close>, returns a tree that is printed with \<^verbatim>\<open>http://b/\<close> first, and the
  identity key of \<^verbatim>\<open>https://a/\<close> is the smaller one.
\<close>

theorem render_sorted_deterministic_counterexample:
  "fst (LinkTree_Run plain_url (site_world external_site) (example_crawler 1) (leaf_results plain_url) fresh)
     = Inr external_tree
   \<and> distinct_pages external_tree
   \<and> LinkTree_String external_tree = ''- http://b/\<newline>- https://a/\<newline>''
   \<and> Option.bind (url_Parse plain_url ''http://b/'') (withoutScheme plain_url) = Some ''//b/''
   \<and> Option.bind (url_Parse plain_url ''https://a/'') (withoutScheme plain_url) = Some ''//a/''
   \<and> ''//a/'' < ''//b/''"
  by code_simp

end
